theory Spec2Isabelle
  imports Main "HOL-Library.AList" "HOL-Library.Sublist"
begin

section \<open>Strings and paths\<close>

text \<open>
  A \<open>std::string\<close> is a list of bytes. A \<open>std::filesystem::path\<close> is the list of its
  components, outermost first; the empty list is the directory every relative path starts
  from. Paths are taken as already normalised: no component is \<open>.\<close> or \<open>..\<close>, none
  holds a separator, and there are no symbolic links.
\<close>

type_synonym path = "string list"

text \<open>
  \<open>::tolower\<close> in the C locale: the 26 upper-case letters map to their lower-case
  letters, every other byte is returned as it is.
\<close>

definition tolower :: "char \<Rightarrow> char" where
  "tolower c =
     (case map_of (zip ''ABCDEFGHIJKLMNOPQRSTUVWXYZ'' ''abcdefghijklmnopqrstuvwxyz'') c of
        Some l \<Rightarrow> l
      | None \<Rightarrow> c)"

text \<open>\<open>to_lower\<close> (lines 71-76): \<open>std::transform\<close> with \<open>::tolower\<close> over a copy.\<close>

definition to_lower :: "string \<Rightarrow> string" where
  "to_lower str = map tolower str"

text \<open>
  \<open>std::string::find(pat)\<close>: the first position at which \<open>pat\<close> starts, \<open>None\<close> for
  \<open>npos\<close>.
\<close>

primrec str_find :: "string \<Rightarrow> string \<Rightarrow> nat option" where
  "str_find [] pat = (if pat = [] then Some 0 else None)"
| "str_find (c # cs) pat =
     (if prefix pat (c # cs) then Some 0 else map_option Suc (str_find cs pat))"

text \<open>\<open>std::to_string\<close> on a non-negative \<open>int\<close>: its decimal digits.\<close>

fun to_string :: "nat \<Rightarrow> string" where
  "to_string n =
     (if n < 10 then [''0123456789'' ! n]
      else to_string (n div 10) @ [''0123456789'' ! (n mod 10)])"

declare to_string.simps [simp del]

text \<open>
  \<open>path::filename()\<close> is the last component. \<open>path::extension()\<close> starts at the last
  period of the file name, that period included; the names \<open>.\<close> and \<open>..\<close> and a name
  whose only period is its first character have no extension. \<open>path::stem()\<close> is the file
  name without its extension.
\<close>

definition path_filename :: "path \<Rightarrow> string" where
  "path_filename p = (if p = [] then [] else last p)"

definition filename_extension :: "string \<Rightarrow> string" where
  "filename_extension f =
     (if CHR ''.'' \<notin> set f \<or> f = ''.'' \<or> f = ''..'' then []
      else let pos = length f - Suc (length (takeWhile (\<lambda>c. c \<noteq> CHR ''.'') (rev f)))
           in if pos = 0 then [] else drop pos f)"

definition path_extension :: "path \<Rightarrow> string" where
  "path_extension p = filename_extension (path_filename p)"

definition path_stem :: "path \<Rightarrow> string" where
  "path_stem p =
     take (length (path_filename p) - length (path_extension p)) (path_filename p)"

definition parent_path :: "path \<Rightarrow> path" where
  "parent_path p = butlast p"

text \<open>\<open>is_audio_file\<close> (lines 79-82).\<close>

definition is_audio_file :: "path \<Rightarrow> bool" where
  "is_audio_file file_path =
     (let extension = to_lower (path_extension file_path)
      in extension = ''.wav'' \<or> extension = ''.mp3'')"

text \<open>\<open>append_index_to_filename\<close> (lines 91-95).\<close>

definition append_index_to_filename :: "path \<Rightarrow> nat \<Rightarrow> string" where
  "append_index_to_filename filename index =
     (let base_name = path_stem filename;
          extension = path_extension filename
      in base_name @ ''_'' @ to_string index @ extension)"

section \<open>Classification\<close>

text \<open>
  The chain of conditions of \<open>organize_file\<close> (lines 120-162) on the lower-cased file
  name. Every branch appends a group folder, a subgroup folder and the file name to the
  destination; \<open>category\<close> is the pair of folders the branch appends.
\<close>

definition category :: "string \<Rightarrow> string \<times> string" where
  "category filename =
     (if str_find filename ''808'' \<noteq> None then (''Drums'', ''808'')
      else if str_find filename ''snare'' \<noteq> None \<or>
              str_find filename ''_snr'' \<noteq> None \<or>
              str_find filename ''snr_'' \<noteq> None then (''Drums'', ''Snare'')
      else if str_find filename ''kick'' \<noteq> None \<or>
              str_find filename ''_kck'' \<noteq> None \<or>
              str_find filename ''kck_'' \<noteq> None then (''Drums'', ''Kick'')
      else if str_find filename ''clap'' \<noteq> None \<or>
              str_find filename ''_clp'' \<noteq> None \<or>
              str_find filename ''clp_'' \<noteq> None then (''Drums'', ''Clap'')
      else if str_find filename ''hat'' \<noteq> None \<or>
              str_find filename ''ht_'' \<noteq> None \<or>
              str_find filename ''_ht'' \<noteq> None then (''Drums'', ''Hat'')
      else if str_find filename ''drum'' \<noteq> None \<or>
              str_find filename ''_drm'' \<noteq> None \<or>
              str_find filename ''drm_'' \<noteq> None then (''Drums'', ''Other'')
      else if str_find filename ''loop'' \<noteq> None then (''Other'', ''Loop'')
      else (''Other'', ''Other''))"

text \<open>
  The category of a file name as \<open>organize_file\<close> computes it: line 116 lower-cases the
  name before the chain reads it.
\<close>

definition classify :: "string \<Rightarrow> string \<times> string" where
  "classify name = category (to_lower name)"

text \<open>The candidate destination of a source file (lines 116-162).\<close>

definition candidate_path :: "path \<Rightarrow> path \<Rightarrow> path" where
  "candidate_path source destination =
     (let filename = to_lower (path_filename source)
      in destination @ [fst (category filename), snd (category filename), path_filename source])"

section \<open>The file system\<close>

text \<open>
  The file system is a finite table from paths to nodes, compared byte by byte (a
  case-sensitive file system). The path \<open>[]\<close> is always a directory. Every library
  call can fail for a reason outside the table (permissions, the device): the parameter
  \<open>io\<close> says which calls do. The failures the table itself decides (a missing source, an
  occupied target, a directory that is not empty) follow \<open>std::filesystem\<close>.
\<close>

datatype node = File string | Dir

type_synonym fs = "(path \<times> node) list"

datatype fs_op =
    Op_exists path
  | Op_is_directory path
  | Op_directory_iterator path
  | Op_create_directory path
  | Op_copy_file path path
  | Op_remove path

datatype errc = EIO | ENOENT | EEXIST | ENOTDIR | EISDIR | ENOTEMPTY

datatype fs_error = Filesystem_error errc fs_op

type_synonym io = "fs_op \<Rightarrow> bool"

definition node_at :: "fs \<Rightarrow> path \<Rightarrow> node option" where
  "node_at t p = (if p = [] then Some Dir else map_of t p)"

definition dir_entries :: "fs \<Rightarrow> path \<Rightarrow> path list" where
  "dir_entries t d = remdups (filter (\<lambda>p. p \<noteq> [] \<and> butlast p = d) (map fst t))"

definition fs_exists :: "io \<Rightarrow> fs \<Rightarrow> path \<Rightarrow> fs_error + bool" where
  "fs_exists io t p =
     (if io (Op_exists p) then Inl (Filesystem_error EIO (Op_exists p))
      else Inr (node_at t p \<noteq> None))"

definition fs_is_directory :: "io \<Rightarrow> fs \<Rightarrow> path \<Rightarrow> fs_error + bool" where
  "fs_is_directory io t p =
     (if io (Op_is_directory p) then Inl (Filesystem_error EIO (Op_is_directory p))
      else Inr (node_at t p = Some Dir))"

text \<open>
  \<open>directory_iterator\<close>: the entries of the directory as they are when the iterator is
  made (C++ leaves open whether later changes are seen).
\<close>

definition fs_directory_iterator :: "io \<Rightarrow> fs \<Rightarrow> path \<Rightarrow> fs_error + path list" where
  "fs_directory_iterator io t d =
     (if io (Op_directory_iterator d) then Inl (Filesystem_error EIO (Op_directory_iterator d))
      else case node_at t d of
             None \<Rightarrow> Inl (Filesystem_error ENOENT (Op_directory_iterator d))
           | Some (File c) \<Rightarrow> Inl (Filesystem_error ENOTDIR (Op_directory_iterator d))
           | Some Dir \<Rightarrow> Inr (dir_entries t d))"

text \<open>
  \<open>copy_file\<close> with no options: the source must be a regular file, the target must not
  exist, the target's directory must.
\<close>

definition fs_copy_file :: "io \<Rightarrow> fs \<Rightarrow> path \<Rightarrow> path \<Rightarrow> fs_error + fs" where
  "fs_copy_file io t src tgt =
     (if io (Op_copy_file src tgt) then Inl (Filesystem_error EIO (Op_copy_file src tgt))
      else case node_at t src of
             None \<Rightarrow> Inl (Filesystem_error ENOENT (Op_copy_file src tgt))
           | Some Dir \<Rightarrow> Inl (Filesystem_error EISDIR (Op_copy_file src tgt))
           | Some (File c) \<Rightarrow>
               if node_at t tgt \<noteq> None then Inl (Filesystem_error EEXIST (Op_copy_file src tgt))
               else (case node_at t (parent_path tgt) of
                       None \<Rightarrow> Inl (Filesystem_error ENOENT (Op_copy_file src tgt))
                     | Some (File d) \<Rightarrow> Inl (Filesystem_error ENOTDIR (Op_copy_file src tgt))
                     | Some Dir \<Rightarrow> Inr (AList.update tgt (File c) t)))"

text \<open>
  \<open>remove\<close>: deletes a file or an empty directory; nothing happens when the path does not
  exist; a directory with entries is an error.
\<close>

definition fs_remove :: "io \<Rightarrow> fs \<Rightarrow> path \<Rightarrow> fs_error + fs" where
  "fs_remove io t p =
     (if io (Op_remove p) then Inl (Filesystem_error EIO (Op_remove p))
      else case node_at t p of
             None \<Rightarrow> Inr t
           | Some (File c) \<Rightarrow> Inr (AList.delete p t)
           | Some Dir \<Rightarrow>
               if p = [] \<or> dir_entries t p \<noteq> [] then Inl (Filesystem_error ENOTEMPTY (Op_remove p))
               else Inr (AList.delete p t))"

text \<open>
  \<open>create_directories\<close>: walks the path from its first component, makes every directory
  that is missing and stops at a component that is a file. The directories made before
  a failure stay.
\<close>

primrec create_from :: "io \<Rightarrow> path \<Rightarrow> string list \<Rightarrow> fs \<Rightarrow> fs \<times> fs_error option" where
  "create_from io pre [] t = (t, None)"
| "create_from io pre (c # cs) t =
     (case node_at t (pre @ [c]) of
        Some Dir \<Rightarrow> create_from io (pre @ [c]) cs t
      | Some (File d) \<Rightarrow> (t, Some (Filesystem_error ENOTDIR (Op_create_directory (pre @ [c]))))
      | None \<Rightarrow>
          if io (Op_create_directory (pre @ [c]))
          then (t, Some (Filesystem_error EIO (Op_create_directory (pre @ [c]))))
          else create_from io (pre @ [c]) cs (AList.update (pre @ [c]) Dir t))"

definition fs_create_directories :: "io \<Rightarrow> fs \<Rightarrow> path \<Rightarrow> fs \<times> fs_error option" where
  "fs_create_directories io t p = create_from io [] p t"

text \<open>\<open>create_parent_directories\<close> (lines 98-100).\<close>

definition create_parent_directories :: "io \<Rightarrow> fs \<Rightarrow> path \<Rightarrow> fs \<times> fs_error option" where
  "create_parent_directories io t file_path = fs_create_directories io t (parent_path file_path)"

section \<open>The program state\<close>

text \<open>
  What the program prints, line groups as values. \<open>cout\<close> and \<open>cerr\<close> are the two streams.
\<close>

datatype message =
    Request path path
  | Moved path path
  | Error_copying_file fs_error
  | Error_processing_file_system fs_error
  | Source_folder_does_not_exist
  | Splice_files_organized_successfully

text \<open>
  \<open>processed_files\<close> is the global set of line 68. \<open>copied\<close> is a history variable of the
  model, not of the program: the pairs (source, target) of the \<open>copy_file\<close> calls that
  completed, oldest first.
\<close>

record state =
  fsys :: fs
  processed_files :: "string set"
  cout :: "message list"
  cerr :: "message list"
  copied :: "(path \<times> path) list"

definition initial_state :: "fs \<Rightarrow> state" where
  "initial_state t = \<lparr>fsys = t, processed_files = {}, cout = [], cerr = [], copied = []\<rparr>"

text \<open>\<open>file_already_processed\<close> (lines 85-88).\<close>

definition file_already_processed :: "path \<Rightarrow> state \<Rightarrow> bool" where
  "file_already_processed file_path st =
     (let filename = to_lower (path_filename file_path) in filename \<in> processed_files st)"

text \<open>\<open>print_file_move_info\<close> (lines 103-107).\<close>

definition print_file_move_info :: "path \<Rightarrow> path \<Rightarrow> state \<Rightarrow> state" where
  "print_file_move_info source destination st = st\<lparr>cout := cout st @ [Moved source destination]\<rparr>"

text \<open>
  \<open>fs::copy_file(source, target)\<close> followed by the guarded \<open>print_file_move_info\<close>, as all
  three copying branches have it (lines 175-176, 180-181, 187-188).
\<close>

definition copy_and_report :: "io \<Rightarrow> path \<Rightarrow> path \<Rightarrow> bool \<Rightarrow> state \<Rightarrow> fs_error + state" where
  "copy_and_report io source target print_info st =
     (case fs_copy_file io (fsys st) source target of
        Inl e \<Rightarrow> Inl e
      | Inr t \<Rightarrow>
          let st' = st\<lparr>fsys := t, copied := copied st @ [(source, target)]\<rparr>
          in Inr (if print_info then print_file_move_info source target st' else st'))"

text \<open>Line 196.\<close>

definition mark_processed :: "path \<Rightarrow> state \<Rightarrow> state" where
  "mark_processed source st =
     st\<lparr>processed_files := insert (to_lower (path_filename source)) (processed_files st)\<rparr>"

section \<open>Placing one file\<close>

text \<open>
  The loop of lines 183-191, from index \<open>i\<close> on. It returns the state and the
  \<open>filesystem_error\<close> that left it, if one did.
\<close>

function indexed_copy :: "io \<Rightarrow> path \<Rightarrow> path \<Rightarrow> bool \<Rightarrow> nat \<Rightarrow> state \<Rightarrow> state \<times> fs_error option" where
  "indexed_copy io source destination print_info i st =
     (if i < 999999 then
        (let indexed_dest_path = destination @ [append_index_to_filename [path_filename source] i]
         in case fs_exists io (fsys st) indexed_dest_path of
              Inl e \<Rightarrow> (st, Some e)
            | Inr False \<Rightarrow>
                (case copy_and_report io source indexed_dest_path print_info st of
                   Inl e \<Rightarrow> (st, Some e)
                 | Inr st' \<Rightarrow> (st', None))
            | Inr True \<Rightarrow> indexed_copy io source destination print_info (Suc i) st)
      else (st, None))"
  by pat_completeness auto
termination
  by (relation "measure (\<lambda>(io, source, destination, print_info, i, st). 999999 - i)") auto

declare indexed_copy.simps [simp del]

text \<open>
  The three ways a file is placed, each with the marking of line 196 that follows it
  when no \<open>filesystem_error\<close> left the block: the copy to a free candidate (lines
  175-176), the removal and copy of lines 179-181, and the loop of lines 183-191.
\<close>

definition copy_fresh :: "io \<Rightarrow> path \<Rightarrow> path \<Rightarrow> bool \<Rightarrow> state \<Rightarrow> state \<times> fs_error option" where
  "copy_fresh io source dest_path print_info st =
     (case copy_and_report io source dest_path print_info st of
        Inl e \<Rightarrow> (st, Some e)
      | Inr st' \<Rightarrow> (mark_processed source st', None))"

definition copy_overwrite :: "io \<Rightarrow> path \<Rightarrow> path \<Rightarrow> bool \<Rightarrow> state \<Rightarrow> state \<times> fs_error option" where
  "copy_overwrite io source dest_path print_info st =
     (case fs_remove io (fsys st) dest_path of
        Inl e \<Rightarrow> (st, Some e)
      | Inr t \<Rightarrow> copy_fresh io source dest_path print_info (st\<lparr>fsys := t\<rparr>))"

definition copy_indexed :: "io \<Rightarrow> path \<Rightarrow> path \<Rightarrow> bool \<Rightarrow> state \<Rightarrow> state \<times> fs_error option" where
  "copy_indexed io source destination print_info st =
     (case indexed_copy io source destination print_info 0 st of
        (st', Some e) \<Rightarrow> (st', Some e)
      | (st', None) \<Rightarrow> (mark_processed source st', None))"

text \<open>Lines 174-196: the choice between the three.\<close>

definition place_file :: "io \<Rightarrow> path \<Rightarrow> path \<Rightarrow> path \<Rightarrow> bool \<Rightarrow> state \<Rightarrow> state \<times> fs_error option" where
  "place_file io source destination dest_path print_info st =
     (case fs_exists io (fsys st) dest_path of
        Inl e \<Rightarrow> (st, Some e)
      | Inr False \<Rightarrow> copy_fresh io source dest_path print_info st
      | Inr True \<Rightarrow>
          if \<not> file_already_processed dest_path st
          then copy_overwrite io source dest_path print_info st
          else copy_indexed io source destination print_info st)"

text \<open>Lines 167-171.\<close>

definition print_request :: "path \<Rightarrow> path \<Rightarrow> bool \<Rightarrow> state \<Rightarrow> state" where
  "print_request source dest_path print_info st =
     (if print_info then st\<lparr>cout := cout st @ [Request source dest_path]\<rparr> else st)"

text \<open>The body of the \<open>try\<close> block (lines 165-196).\<close>

definition organize_try :: "io \<Rightarrow> path \<Rightarrow> path \<Rightarrow> path \<Rightarrow> bool \<Rightarrow> state \<Rightarrow> state \<times> fs_error option" where
  "organize_try io source destination dest_path print_info st =
     (case create_parent_directories io (fsys st) dest_path of
        (t, Some e) \<Rightarrow> (st\<lparr>fsys := t\<rparr>, Some e)
      | (t, None) \<Rightarrow>
          place_file io source destination dest_path print_info
            (print_request source dest_path print_info (st\<lparr>fsys := t\<rparr>)))"

text \<open>\<open>organize_file\<close> (lines 110-200).\<close>

definition organize_file :: "io \<Rightarrow> path \<Rightarrow> path \<Rightarrow> bool \<Rightarrow> state \<Rightarrow> state" where
  "organize_file io source destination print_info st =
     (if \<not> is_audio_file source then st
      else let dest_path = candidate_path source destination
           in case organize_try io source destination dest_path print_info st of
                (st', None) \<Rightarrow> st'
              | (st', Some e) \<Rightarrow> st'\<lparr>cerr := cerr st' @ [Error_copying_file e]\<rparr>)"

section \<open>Walking the source tree\<close>

text \<open>
  The body of the \<open>for\<close> loop of \<open>process_directory\<close> (lines 206-212) over the entries that
  are left; \<open>recurse\<close> is the recursive call of line 208. The result is the state and the
  \<open>filesystem_error\<close> that left the loop, if one did; \<open>None\<close> when the recursive call does
  not return.
\<close>

primrec for_each_entry ::
  "(path \<Rightarrow> state \<Rightarrow> state option) \<Rightarrow> io \<Rightarrow> path list \<Rightarrow> path \<Rightarrow> bool \<Rightarrow> state
     \<Rightarrow> (state \<times> fs_error option) option" where
  "for_each_entry recurse io [] destination print_info st = Some (st, None)"
| "for_each_entry recurse io (entry # entries) destination print_info st =
     (case fs_is_directory io (fsys st) entry of
        Inl e \<Rightarrow> Some (st, Some e)
      | Inr True \<Rightarrow>
          (case recurse entry st of
             None \<Rightarrow> None
           | Some st' \<Rightarrow> for_each_entry recurse io entries destination print_info st')
      | Inr False \<Rightarrow>
          for_each_entry recurse io entries destination print_info
            (organize_file io entry destination print_info st))"

text \<open>
  \<open>process_directory\<close> (lines 203-216). The first argument bounds the depth of the
  recursion: \<open>None\<close> is a walk that needs a deeper recursion than that.
\<close>

primrec process_directory :: "nat \<Rightarrow> io \<Rightarrow> path \<Rightarrow> path \<Rightarrow> bool \<Rightarrow> state \<Rightarrow> state option" where
  "process_directory 0 io source destination print_info st = None"
| "process_directory (Suc n) io source destination print_info st =
     (case fs_directory_iterator io (fsys st) source of
        Inl e \<Rightarrow> Some (st\<lparr>cerr := cerr st @ [Error_processing_file_system e]\<rparr>)
      | Inr entries \<Rightarrow>
          (case for_each_entry (\<lambda>p s. process_directory n io p destination print_info s)
                  io entries destination print_info st of
             None \<Rightarrow> None
           | Some (st', None) \<Rightarrow> Some st'
           | Some (st', Some e) \<Rightarrow> Some (st'\<lparr>cerr := cerr st' @ [Error_processing_file_system e]\<rparr>)))"

section \<open>The program\<close>

text \<open>
  \<open>main\<close> (lines 218-271) after its prompts: the two folder names and the flag are
  parameters. None of its own library calls stands in a \<open>try\<close> block, so a
  \<open>filesystem_error\<close> of theirs ends the program: the result \<open>Inl\<close>. Otherwise the result
  is the exit code and the final state.
\<close>

definition taxonomy :: "(string \<times> string) list" where
  "taxonomy =
     [(''Drums'', ''808''), (''Drums'', ''Snare''), (''Drums'', ''Kick''), (''Drums'', ''Clap''),
      (''Drums'', ''Hat''), (''Drums'', ''Other''), (''Other'', ''Loop''), (''Other'', ''Other'')]"

primrec create_folders :: "io \<Rightarrow> path \<Rightarrow> (string \<times> string) list \<Rightarrow> fs \<Rightarrow> fs_error + fs" where
  "create_folders io destination [] t = Inr t"
| "create_folders io destination (gs # rest) t =
     (case fs_create_directories io t (destination @ [fst gs, snd gs]) of
        (t', Some e) \<Rightarrow> Inl e
      | (t', None) \<Rightarrow> create_folders io destination rest t')"

definition main_run :: "nat \<Rightarrow> io \<Rightarrow> path \<Rightarrow> path \<Rightarrow> bool \<Rightarrow> fs \<Rightarrow> (fs_error + int \<times> state) option" where
  "main_run depth io source_path destination_path print_info t =
     (case fs_exists io t source_path of
        Inl e \<Rightarrow> Some (Inl e)
      | Inr False \<Rightarrow> Some (Inr (1, (initial_state t)\<lparr>cout := [Source_folder_does_not_exist]\<rparr>))
      | Inr True \<Rightarrow>
          (case create_folders io destination_path taxonomy t of
             Inl e \<Rightarrow> Some (Inl e)
           | Inr t' \<Rightarrow>
               (case process_directory depth io source_path destination_path print_info
                       (initial_state t') of
                  None \<Rightarrow> None
                | Some st \<Rightarrow>
                    Some (Inr (0, st\<lparr>cout := cout st @ [Splice_files_organized_successfully]\<rparr>)))))"

section \<open>The classification table of the specification\<close>

text \<open>
  The specification's words, to compare the chain of conditions with: a name contains a
  pattern when the pattern is one of its substrings; the rules are a list of patterns
  and a category each, read top to bottom, the first rule with a pattern the name
  contains wins, and a name no rule matches is in Other/Other.
\<close>

definition contains :: "string \<Rightarrow> string \<Rightarrow> bool" where
  "contains s pat = (\<exists>a b. s = a @ pat @ b)"

definition rule_table :: "(string list \<times> string \<times> string) list" where
  "rule_table =
     [([''808''], (''Drums'', ''808'')),
      ([''snare'', ''_snr'', ''snr_''], (''Drums'', ''Snare'')),
      ([''kick'', ''_kck'', ''kck_''], (''Drums'', ''Kick'')),
      ([''clap'', ''_clp'', ''clp_''], (''Drums'', ''Clap'')),
      ([''hat'', ''ht_'', ''_ht''], (''Drums'', ''Hat'')),
      ([''drum'', ''_drm'', ''drm_''], (''Drums'', ''Other'')),
      ([''loop''], (''Other'', ''Loop''))]"

primrec first_match :: "(string list \<times> string \<times> string) list \<Rightarrow> string \<Rightarrow> string \<times> string" where
  "first_match [] f = (''Other'', ''Other'')"
| "first_match (r # rs) f =
     (if \<exists>pat \<in> set (fst r). contains f pat then snd r else first_match rs f)"

section \<open>The registry invariant\<close>

text \<open>
  The registry holds exactly the lower-cased file names of the sources of the copies
  that completed.
\<close>

definition registry_inv :: "state \<Rightarrow> bool" where
  "registry_inv st =
     (processed_files st = (\<lambda>c. to_lower (path_filename (fst c))) ` set (copied st))"

section \<open>The indexed names\<close>

text \<open>The path the loop of lines 183-191 tries at index \<open>n\<close> (lines 184-185).\<close>

definition indexed_path :: "path \<Rightarrow> path \<Rightarrow> nat \<Rightarrow> path" where
  "indexed_path source destination n =
     destination @ [append_index_to_filename [path_filename source] n]"

section \<open>Example file systems\<close>

text \<open>No call fails for an outside reason.\<close>

definition no_io :: io where
  "no_io = (\<lambda>op. False)"

text \<open>One audio file in a subfolder of the source, an empty destination.\<close>

definition tree_one_kick :: fs where
  "tree_one_kick =
     [([''src''], Dir), ([''src'', ''a''], Dir), ([''src'', ''a'', ''Kick.WAV''], File ''one'')]"

definition placed_one_kick :: state where
  "placed_one_kick =
     \<lparr>fsys = tree_one_kick @
         [([''dst''], Dir), ([''dst'', ''Drums''], Dir), ([''dst'', ''Drums'', ''Kick''], Dir),
          ([''dst'', ''Drums'', ''Kick'', ''Kick.WAV''], File ''one'')],
      processed_files = {''kick.wav''}, cout = [], cerr = [],
      copied = [([''src'', ''a'', ''Kick.WAV''], [''dst'', ''Drums'', ''Kick'', ''Kick.WAV''])]\<rparr>"

text \<open>
  Two audio files side by side; the copy of the first is refused from outside.
\<close>

definition tree_two :: fs where
  "tree_two = [([''src''], Dir), ([''src'', ''a.wav''], File ''A''), ([''src'', ''b.wav''], File ''B'')]"

definition io_copy_a_fails :: io where
  "io_copy_a_fails = (\<lambda>op. op = Op_copy_file [''src'', ''a.wav''] [''dst'', ''Other'', ''Other'', ''a.wav''])"

definition after_two :: state where
  "after_two =
     \<lparr>fsys = tree_two @
        [([''dst''], Dir), ([''dst'', ''Drums''], Dir), ([''dst'', ''Drums'', ''808''], Dir),
         ([''dst'', ''Drums'', ''Snare''], Dir), ([''dst'', ''Drums'', ''Kick''], Dir),
         ([''dst'', ''Drums'', ''Clap''], Dir), ([''dst'', ''Drums'', ''Hat''], Dir),
         ([''dst'', ''Drums'', ''Other''], Dir), ([''dst'', ''Other''], Dir),
         ([''dst'', ''Other'', ''Loop''], Dir), ([''dst'', ''Other'', ''Other''], Dir),
         ([''dst'', ''Other'', ''Other'', ''b.wav''], File ''B'')],
      processed_files = {''b.wav''},
      cout = [Splice_files_organized_successfully],
      cerr = [Error_copying_file (Filesystem_error EIO
                (Op_copy_file [''src'', ''a.wav''] [''dst'', ''Other'', ''Other'', ''a.wav'']))],
      copied = [([''src'', ''b.wav''], [''dst'', ''Other'', ''Other'', ''b.wav''])]\<rparr>"

text \<open>
  A library that is already sorted, given as the source and as the destination.
\<close>

definition tree_in_place :: fs where
  "tree_in_place =
     [([''lib''], Dir), ([''lib'', ''Drums''], Dir), ([''lib'', ''Drums'', ''Kick''], Dir),
      ([''lib'', ''Drums'', ''Kick'', ''kick.wav''], File ''one'')]"

definition in_place_after :: state where
  "in_place_after =
     \<lparr>fsys =
        [([''lib''], Dir), ([''lib'', ''Drums''], Dir), ([''lib'', ''Drums'', ''Kick''], Dir),
         ([''lib'', ''Drums'', ''808''], Dir), ([''lib'', ''Drums'', ''Snare''], Dir),
         ([''lib'', ''Drums'', ''Clap''], Dir), ([''lib'', ''Drums'', ''Hat''], Dir),
         ([''lib'', ''Drums'', ''Other''], Dir), ([''lib'', ''Other''], Dir),
         ([''lib'', ''Other'', ''Loop''], Dir), ([''lib'', ''Other'', ''Other''], Dir)],
      processed_files = {},
      cout = [Splice_files_organized_successfully],
      cerr = [Error_copying_file (Filesystem_error ENOENT
                (Op_copy_file [''lib'', ''Drums'', ''Kick'', ''kick.wav'']
                   [''lib'', ''Drums'', ''Kick'', ''kick.wav'']))],
      copied = []\<rparr>"

text \<open>The subfolder \<open>src/a\<close> cannot be listed.\<close>

definition io_a_unreadable :: io where
  "io_a_unreadable = (\<lambda>op. op = Op_directory_iterator [''src'', ''a''])"


text \<open>
  A second \<open>Kick.WAV\<close> in the same run: the first is placed and registered, and
  \<open>Kick_0.WAV\<close> is taken.
\<close>

definition state_second_kick :: state where
  "state_second_kick =
     \<lparr>fsys =
        [([''src''], Dir), ([''src'', ''a''], Dir), ([''src'', ''a'', ''Kick.WAV''], File ''one''),
         ([''src'', ''b''], Dir), ([''src'', ''b'', ''Kick.WAV''], File ''two''),
         ([''dst''], Dir), ([''dst'', ''Drums''], Dir), ([''dst'', ''Drums'', ''Kick''], Dir),
         ([''dst'', ''Drums'', ''Kick'', ''Kick.WAV''], File ''one''),
         ([''dst'', ''Kick_0.WAV''], File ''zero'')],
      processed_files = {''kick.wav''}, cout = [], cerr = [],
      copied = [([''src'', ''a'', ''Kick.WAV''], [''dst'', ''Drums'', ''Kick'', ''Kick.WAV''])]\<rparr>"

text \<open>
  The same, with every indexed name of the loop taken: \<open>Kick_0.WAV\<close> to
  \<open>Kick_999998.WAV\<close> exist in the destination root.
\<close>

definition taken_names :: fs where
  "taken_names =
     map (\<lambda>j. (indexed_path [''src'', ''b'', ''Kick.WAV''] [''dst''] j, File ''x'')) [0..<999999]"

definition state_exhausted :: state where
  "state_exhausted = state_second_kick\<lparr>fsys := fsys state_second_kick @ taken_names\<rparr>"

text \<open>
  Two files whose names differ in case only, in two subfolders of the source.
\<close>

definition tree_two_cases :: fs where
  "tree_two_cases =
     [([''src''], Dir), ([''src'', ''a''], Dir), ([''src'', ''a'', ''Kick.WAV''], File ''one''),
      ([''src'', ''b''], Dir), ([''src'', ''b'', ''kick.wav''], File ''two'')]"

definition placed_two_cases :: state where
  "placed_two_cases =
     \<lparr>fsys = tree_two_cases @
        [([''dst''], Dir), ([''dst'', ''Drums''], Dir), ([''dst'', ''Drums'', ''Kick''], Dir),
         ([''dst'', ''Drums'', ''Kick'', ''Kick.WAV''], File ''one''),
         ([''dst'', ''Drums'', ''Kick'', ''kick.wav''], File ''two'')],
      processed_files = {''kick.wav''}, cout = [], cerr = [],
      copied = [([''src'', ''a'', ''Kick.WAV''], [''dst'', ''Drums'', ''Kick'', ''Kick.WAV'']),
                ([''src'', ''b'', ''kick.wav''], [''dst'', ''Drums'', ''Kick'', ''kick.wav''])]\<rparr>"

text \<open>
  The destination \<open>lib/out\<close> lies inside the source \<open>lib\<close>; its folders are there, as
  \<open>main\<close> makes them before the walk.
\<close>

definition tree_nested :: fs where
  "tree_nested =
     [([''lib''], Dir), ([''lib'', ''a.wav''], File ''A''), ([''lib'', ''out''], Dir),
      ([''lib'', ''out'', ''Other''], Dir), ([''lib'', ''out'', ''Other'', ''Other''], Dir)]"

definition nested_after :: state where
  "nested_after =
     \<lparr>fsys = tree_nested @
        [([''lib'', ''out'', ''Other'', ''Other'', ''a.wav''], File ''A''),
         ([''lib'', ''out'', ''a_0.wav''], File ''A'')],
      processed_files = {''a.wav''}, cout = [], cerr = [],
      copied =
        [([''lib'', ''a.wav''], [''lib'', ''out'', ''Other'', ''Other'', ''a.wav'']),
         ([''lib'', ''out'', ''Other'', ''Other'', ''a.wav''], [''lib'', ''out'', ''a_0.wav''])]\<rparr>"

section \<open>What a run may change\<close>

text \<open>
  \<open>modifies dst t t'\<close>: going from the table \<open>t\<close> to \<open>t'\<close>, every node that exists outside
  \<open>dst\<close> is kept as it is; a path that is neither below \<open>dst\<close> nor one of its ancestors
  has the same node and, as a directory, the same entries; and a new path is at most
  three components longer than \<open>dst\<close>.
\<close>

definition modifies :: "path \<Rightarrow> fs \<Rightarrow> fs \<Rightarrow> bool" where
  "modifies dst t t' =
     ((\<forall>p. \<not> prefix dst p \<longrightarrow> node_at t p \<noteq> None \<longrightarrow> node_at t' p = node_at t p) \<and>
      (\<forall>p. \<not> prefix dst p \<longrightarrow> \<not> prefix p dst \<longrightarrow>
           node_at t' p = node_at t p \<and> dir_entries t' p = dir_entries t p) \<and>
      (\<forall>k \<in> fst ` set t'. k \<in> fst ` set t \<or> length k \<le> length dst + 3))"

section \<open>A bound for the depth of the walk\<close>

text \<open>Every path of the table has at most \<open>B\<close> components.\<close>

definition bounded :: "nat \<Rightarrow> fs \<Rightarrow> bool" where
  "bounded B t = (\<forall>k \<in> fst ` set t. length k \<le> B)"

section \<open>The files below a directory\<close>

text \<open>
  The regular files below \<open>root\<close>: the paths that are files and are reached from
  \<open>root\<close> through directories only.
\<close>

definition files_below :: "fs \<Rightarrow> path \<Rightarrow> path set" where
  "files_below t root =
     {p. strict_prefix root p \<and> (\<exists>c. node_at t p = Some (File c)) \<and>
         (\<forall>q. prefix root q \<and> strict_prefix q p \<longrightarrow> node_at t q = Some Dir)}"

text \<open>
  The walk visits each file once: the run of \<open>process_directory\<close> is a run of
  \<open>organize_file\<close> over a list that holds every regular file below the source root
  once and nothing else.
\<close>

definition visits_each_file_once :: "nat \<Rightarrow> io \<Rightarrow> path \<Rightarrow> path \<Rightarrow> bool \<Rightarrow> state \<Rightarrow> bool" where
  "visits_each_file_once n io source destination print_info st =
     (\<exists>ps. distinct ps \<and> set ps = files_below (fsys st) source \<and>
        process_directory n io source destination print_info st =
          Some (foldl (\<lambda>s p. organize_file io p destination print_info s) st ps))"

text \<open>Two tables agree on every path below \<open>root\<close>.\<close>

definition same_below :: "path \<Rightarrow> fs \<Rightarrow> fs \<Rightarrow> bool" where
  "same_below root t t' =
     (\<forall>p. prefix root p \<longrightarrow> node_at t' p = node_at t p \<and> dir_entries t' p = dir_entries t p)"

text \<open>
  The files a walk of a table that does not change meets, in the order of the walk; the
  first argument bounds the depth as in \<open>process_directory\<close>.
\<close>

primrec walk :: "nat \<Rightarrow> fs \<Rightarrow> path \<Rightarrow> path list" where
  "walk 0 t d = []"
| "walk (Suc n) t d =
     concat (map (\<lambda>e. if node_at t e = Some Dir then walk n t e else [e]) (dir_entries t d))"

text \<open>The length of the longest path of the table.\<close>

definition max_depth :: "fs \<Rightarrow> nat" where
  "max_depth t = foldr (\<lambda>e m. max (length (fst e)) m) t 0"

section \<open>Facts about strings\<close>

lemma tolower_idem: "tolower (tolower c) = tolower c"
  by (simp add: tolower_def)

lemma to_lower_idem: "to_lower (to_lower s) = to_lower s"
  by (simp add: to_lower_def tolower_idem)

lemma str_find_iff: "(str_find s pat \<noteq> None) = contains s pat"
  unfolding contains_def
proof (induction s)
  case Nil
  then show ?case by simp
next
  case (Cons c cs)
  show ?case
  proof
    assume "str_find (c # cs) pat \<noteq> None"
    then consider "prefix pat (c # cs)" | "str_find cs pat \<noteq> None"
      by (auto split: if_splits)
    then show "\<exists>a b. c # cs = a @ pat @ b"
    proof cases
      case 1
      then obtain b where "c # cs = pat @ b" by (auto simp: prefix_def)
      then have "c # cs = [] @ pat @ b" by simp
      then show ?thesis by blast
    next
      case 2
      with Cons.IH obtain a b where "cs = a @ pat @ b" by blast
      then have "c # cs = (c # a) @ pat @ b" by simp
      then show ?thesis by blast
    qed
  next
    assume "\<exists>a b. c # cs = a @ pat @ b"
    then obtain a b where ab: "c # cs = a @ pat @ b" by blast
    show "str_find (c # cs) pat \<noteq> None"
    proof (cases a)
      case Nil
      with ab have "prefix pat (c # cs)" by (simp add: prefix_def)
      then show ?thesis by simp
    next
      case (Cons x a')
      with ab have "cs = a' @ pat @ b" by simp
      with Cons.IH have "str_find cs pat \<noteq> None" by blast
      then show ?thesis by auto
    qed
  qed
qed


lemma contains_code: "contains s pat = (str_find s pat \<noteq> None)"
  by (rule str_find_iff [symmetric])

lemma category_first_match: "category f = first_match rule_table f"
  unfolding category_def rule_table_def by (simp add: contains_code)


lemma classify_808: "contains (to_lower n) ''808'' \<Longrightarrow> classify n = (''Drums'', ''808'')"
  by (simp add: classify_def category_def contains_code)

lemma classify_kick:
  "contains (to_lower n) ''kick'' \<Longrightarrow> \<not> contains (to_lower n) ''808'' \<Longrightarrow>
   \<not> contains (to_lower n) ''snare'' \<Longrightarrow> \<not> contains (to_lower n) ''_snr'' \<Longrightarrow>
   \<not> contains (to_lower n) ''snr_'' \<Longrightarrow> classify n = (''Drums'', ''Kick'')"
  by (simp add: classify_def category_def contains_code)

lemma classify_kick_not_loop:
  "contains (to_lower n) ''kick'' \<Longrightarrow> classify n \<noteq> (''Other'', ''Loop'')"
  by (simp add: classify_def category_def contains_code)

lemma classify_default:
  "\<forall>r \<in> set rule_table. \<forall>pat \<in> set (fst r). \<not> contains (to_lower n) pat \<Longrightarrow>
   classify n = (''Other'', ''Other'')"
  unfolding classify_def category_first_match
  by (simp add: rule_table_def)

section \<open>Classification: order of the rules (C2)\<close>

text \<open>
  C2, as amended. The category of a file name is the category of the first rule of the
  specification's table that has a pattern the lower-cased name contains, Other/Other
  when there is none. So a name containing \<open>808\<close> is always in Drums/808; a name
  containing \<open>kick\<close> and \<open>loop\<close> is in Drums/Kick when no rule above Kick matches it
  (it contains neither \<open>808\<close> nor \<open>snare\<close>, \<open>_snr\<close>, \<open>snr_\<close>), and is in no case in
  Other/Loop; a name containing none of the patterns is in Other/Other.
\<close>

theorem classify_rule_order:
  "classify n = first_match rule_table (to_lower n) \<and>
   (contains (to_lower n) ''808'' \<longrightarrow> classify n = (''Drums'', ''808'')) \<and>
   (contains (to_lower n) ''kick'' \<and> contains (to_lower n) ''loop'' \<and>
      \<not> contains (to_lower n) ''808'' \<and> \<not> contains (to_lower n) ''snare'' \<and>
      \<not> contains (to_lower n) ''_snr'' \<and> \<not> contains (to_lower n) ''snr_''
      \<longrightarrow> classify n = (''Drums'', ''Kick'')) \<and>
   (contains (to_lower n) ''kick'' \<longrightarrow> classify n \<noteq> (''Other'', ''Loop'')) \<and>
   ((\<forall>r \<in> set rule_table. \<forall>pat \<in> set (fst r). \<not> contains (to_lower n) pat)
      \<longrightarrow> classify n = (''Other'', ''Other''))"
  using classify_808 [of n] classify_kick [of n] classify_kick_not_loop [of n]
    classify_default [of n] category_first_match [of "to_lower n"]
  unfolding classify_def by blast

lemma to_lower_ex1: "to_lower ''my808_Kick.wav'' = ''my808_kick.wav''"
  by (simp add: to_lower_def tolower_def)

lemma to_lower_ex2: "to_lower ''Kick_Loop.wav'' = ''kick_loop.wav''"
  by (simp add: to_lower_def tolower_def)

lemma to_lower_ex3: "to_lower ''Pad_C.mp3'' = ''pad_c.mp3''"
  by (simp add: to_lower_def tolower_def)

theorem classify_rule_order_witness:
  "classify ''my808_Kick.wav'' = (''Drums'', ''808'') \<and>
   classify ''Kick_Loop.wav'' = (''Drums'', ''Kick'') \<and>
   classify ''Pad_C.mp3'' = (''Other'', ''Other'')"
proof -
  have h1: "contains (to_lower ''my808_Kick.wav'') ''808''"
    by (simp add: contains_code to_lower_ex1)
  have 1: "classify ''my808_Kick.wav'' = (''Drums'', ''808'')"
    using classify_rule_order [of "''my808_Kick.wav''"] h1 by blast
  have h2: "contains (to_lower ''Kick_Loop.wav'') ''kick'' \<and> contains (to_lower ''Kick_Loop.wav'') ''loop'' \<and>
      \<not> contains (to_lower ''Kick_Loop.wav'') ''808'' \<and> \<not> contains (to_lower ''Kick_Loop.wav'') ''snare'' \<and>
      \<not> contains (to_lower ''Kick_Loop.wav'') ''_snr'' \<and> \<not> contains (to_lower ''Kick_Loop.wav'') ''snr_''"
    by (simp add: contains_code to_lower_ex2)
  have 2: "classify ''Kick_Loop.wav'' = (''Drums'', ''Kick'')"
    using classify_rule_order [of "''Kick_Loop.wav''"] h2 by blast
  have h3: "\<forall>r \<in> set rule_table. \<forall>pat \<in> set (fst r). \<not> contains (to_lower ''Pad_C.mp3'') pat"
    by (simp add: contains_code to_lower_ex3 rule_table_def)
  have 3: "classify ''Pad_C.mp3'' = (''Other'', ''Other'')"
    using classify_rule_order [of "''Pad_C.mp3''"] h3 by blast
  from 1 2 3 show ?thesis by blast
qed

text \<open>
  The claim as written says every name containing \<open>kick\<close> and \<open>loop\<close> is in Drums/Kick.
  The name \<open>808_kick_loop.wav\<close> contains both and is in Drums/808: rule 1 comes first.
\<close>

lemma to_lower_ex4: "to_lower ''808_kick_loop.wav'' = ''808_kick_loop.wav''"
  by (simp add: to_lower_def tolower_def)

theorem kick_loop_counterexample:
  "contains (to_lower ''808_kick_loop.wav'') ''kick'' \<and>
   contains (to_lower ''808_kick_loop.wav'') ''loop'' \<and>
   classify ''808_kick_loop.wav'' \<noteq> (''Drums'', ''Kick'')"
  by (simp add: contains_code classify_def category_def to_lower_ex4)

section \<open>Classification ignores case (C7)\<close>

text \<open>
  C7. Classifying a file name and classifying its lower-cased form give the same
  category; \<open>KICK.wav\<close>, \<open>Kick.wav\<close> and \<open>kick.wav\<close> are in one category.
\<close>

theorem classify_case_invariant:
  "classify f = classify (to_lower f) \<and>
   classify ''KICK.wav'' = classify ''kick.wav'' \<and>
   classify ''Kick.wav'' = classify ''kick.wav''"
proof -
  have "to_lower ''KICK.wav'' = to_lower ''kick.wav''" "to_lower ''Kick.wav'' = to_lower ''kick.wav''"
    by (simp_all add: to_lower_def tolower_def)
  then show ?thesis by (simp add: classify_def to_lower_idem)
qed

theorem classify_case_invariant_witness:
  "classify ''KiCk.WAV'' = classify (to_lower ''KiCk.WAV'')"
  using classify_case_invariant [of "''KiCk.WAV''"] by simp

section \<open>Evaluating the model\<close>

lemmas path_eval = path_filename_def path_extension_def filename_extension_def path_stem_def
  parent_path_def is_audio_file_def append_index_to_filename_def to_lower_def tolower_def
  candidate_path_def category_def to_string.simps

lemmas fs_eval = node_at_def dir_entries_def fs_exists_def fs_is_directory_def
  fs_directory_iterator_def fs_copy_file_def fs_remove_def fs_create_directories_def
  create_parent_directories_def no_io_def

lemmas prog_eval = file_already_processed_def print_file_move_info_def copy_and_report_def
  mark_processed_def copy_fresh_def copy_overwrite_def copy_indexed_def place_file_def
  print_request_def organize_try_def organize_file_def initial_state_def

lemma run_one_kick:
  "process_directory 3 no_io [''src''] [''dst''] False (initial_state tree_one_kick) =
   Some placed_one_kick"
  by (simp add: numeral_3_eq_3 path_eval fs_eval prog_eval tree_one_kick_def
      placed_one_kick_def Let_def)

lemma ext_ex1: "path_extension [''src'', ''kick.txt''] = ''.txt''"
  by (simp add: path_extension_def path_filename_def filename_extension_def)

lemma ext_ex2: "path_extension [''src'', ''Kick.WAV''] = ''.WAV''"
  by (simp add: path_extension_def path_filename_def filename_extension_def)

lemma ext_ex3: "path_extension [''src'', ''.wav''] = ''''"
  by (simp add: path_extension_def path_filename_def filename_extension_def)

lemma stem_ex2: "path_stem [''src'', ''Kick.WAV''] = ''Kick''"
  by (simp add: path_stem_def ext_ex2) (simp add: path_filename_def)

lemma not_audio_ex1: "\<not> is_audio_file [''src'', ''kick.txt'']"
  by (simp add: is_audio_file_def ext_ex1 to_lower_def tolower_def)

section \<open>Files that are not audio files (C6)\<close>

text \<open>
  C6. A path is an audio file exactly when its extension, lower-cased, is \<open>.wav\<close> or
  \<open>.mp3\<close>. For every other path \<open>organize_file\<close> returns the state it was given: no
  copy, no destination, nothing printed on either stream; the loop over the entries
  goes on as if the entry were not there.
\<close>

theorem non_audio_skipped:
  "is_audio_file p =
     (to_lower (path_extension p) = ''.wav'' \<or> to_lower (path_extension p) = ''.mp3'') \<and>
   (\<not> is_audio_file p \<longrightarrow> organize_file io p destination print_info st = st) \<and>
   (\<not> is_audio_file p \<and> fs_is_directory io (fsys st) p = Inr False \<longrightarrow>
      for_each_entry recurse io (p # entries) destination print_info st =
      for_each_entry recurse io entries destination print_info st)"
  by (simp add: is_audio_file_def organize_file_def Let_def)

theorem non_audio_skipped_witness:
  "organize_file no_io [''src'', ''kick.txt''] [''dst''] True
     (initial_state [([''src''], Dir), ([''src'', ''kick.txt''], File ''abc'')]) =
   initial_state [([''src''], Dir), ([''src'', ''kick.txt''], File ''abc'')]"
  using non_audio_skipped [of "[''src'', ''kick.txt'']" no_io "[''dst'']" True
      "initial_state [([''src''], Dir), ([''src'', ''kick.txt''], File ''abc'')]"]
    not_audio_ex1
  by blast


section \<open>What a placement does to the registry and the history\<close>

lemma path_filename_candidate [simp]:
  "path_filename (candidate_path source destination) = path_filename source"
  by (simp add: candidate_path_def path_filename_def Let_def)

lemma copy_and_report_fields:
  "copy_and_report io s t pinfo st = Inr st' \<Longrightarrow>
   processed_files st' = processed_files st \<and> copied st' = copied st @ [(s, t)] \<and>
   cerr st' = cerr st"
  by (auto simp: copy_and_report_def print_file_move_info_def Let_def split: sum.splits if_splits)

lemma indexed_copy_fields:
  "indexed_copy io source destination pinfo i st = (st', r) \<Longrightarrow>
   processed_files st' = processed_files st \<and> cerr st' = cerr st \<and>
   (copied st' = copied st \<or> (r = None \<and> (\<exists>t. copied st' = copied st @ [(source, t)])))"
proof (induction io source destination pinfo i st rule: indexed_copy.induct)
  case (1 io source destination pinfo i st)
  show ?case
  proof (cases "i < 999999")
    case False
    with "1.prems" show ?thesis by (simp add: indexed_copy.simps)
  next
    case True
    let ?p = "destination @ [append_index_to_filename [path_filename source] i]"
    show ?thesis
    proof (cases "fs_exists io (fsys st) ?p")
      case (Inl e)
      with True "1.prems" show ?thesis by (simp add: indexed_copy.simps)
    next
      case (Inr b)
      show ?thesis
      proof (cases b)
        case True
        with \<open>i < 999999\<close> Inr "1.prems" "1.IH" show ?thesis
          by (simp add: indexed_copy.simps)
      next
        case False
        with \<open>i < 999999\<close> Inr "1.prems" show ?thesis
          by (auto simp: indexed_copy.simps dest: copy_and_report_fields split: sum.splits)
      qed
    qed
  qed
qed


lemma copy_fresh_fields:
  "copy_fresh io source dest_path pinfo st = (st', r) \<Longrightarrow>
   cerr st' = cerr st \<and>
   (r \<noteq> None \<longrightarrow> processed_files st' = processed_files st \<and> copied st' = copied st) \<and>
   (r = None \<longrightarrow>
      processed_files st' = insert (to_lower (path_filename source)) (processed_files st) \<and>
      copied st' = copied st @ [(source, dest_path)])"
  unfolding copy_fresh_def
  by (cases "copy_and_report io source dest_path pinfo st")
     (auto simp: mark_processed_def dest: copy_and_report_fields)

lemma copy_overwrite_fields:
  "copy_overwrite io source dest_path pinfo st = (st', r) \<Longrightarrow>
   cerr st' = cerr st \<and>
   (r \<noteq> None \<longrightarrow> processed_files st' = processed_files st \<and> copied st' = copied st) \<and>
   (r = None \<longrightarrow>
      processed_files st' = insert (to_lower (path_filename source)) (processed_files st) \<and>
      copied st' = copied st @ [(source, dest_path)])"
  unfolding copy_overwrite_def
  by (cases "fs_remove io (fsys st) dest_path") (auto dest: copy_fresh_fields)

lemma copy_indexed_fields:
  "copy_indexed io source destination pinfo st = (st', r) \<Longrightarrow>
   cerr st' = cerr st \<and>
   (r \<noteq> None \<longrightarrow> processed_files st' = processed_files st \<and> copied st' = copied st) \<and>
   (r = None \<longrightarrow>
      processed_files st' = insert (to_lower (path_filename source)) (processed_files st) \<and>
      (copied st' = copied st \<or> (\<exists>t. copied st' = copied st @ [(source, t)])))"
  unfolding copy_indexed_def
  by (cases "indexed_copy io source destination pinfo 0 st")
     (auto simp: mark_processed_def dest: indexed_copy_fields split: option.splits)

lemma place_file_fields:
  assumes "place_file io source destination dest_path pinfo st = (st', r)"
    and "path_filename dest_path = path_filename source"
  shows "cerr st' = cerr st \<and>
     (r \<noteq> None \<longrightarrow> processed_files st' = processed_files st \<and> copied st' = copied st) \<and>
     (r = None \<longrightarrow>
        processed_files st' = insert (to_lower (path_filename source)) (processed_files st) \<and>
        ((\<exists>t. copied st' = copied st @ [(source, t)]) \<or>
         (copied st' = copied st \<and> to_lower (path_filename source) \<in> processed_files st)))"
proof (cases "fs_exists io (fsys st) dest_path")
  case (Inl e)
  with assms show ?thesis by (auto simp: place_file_def)
next
  case (Inr b)
  show ?thesis
  proof (cases b)
    case False
    with Inr assms have "copy_fresh io source dest_path pinfo st = (st', r)"
      by (simp add: place_file_def)
    from copy_fresh_fields [OF this] show ?thesis by blast
  next
    case True
    show ?thesis
    proof (cases "file_already_processed dest_path st")
      case False
      with True Inr assms have "copy_overwrite io source dest_path pinfo st = (st', r)"
        by (simp add: place_file_def)
      from copy_overwrite_fields [OF this] show ?thesis by blast
    next
      case fap: True
      with True Inr assms have "copy_indexed io source destination pinfo st = (st', r)"
        by (simp add: place_file_def)
      from copy_indexed_fields [OF this] fap assms(2) show ?thesis
        by (auto simp: file_already_processed_def Let_def)
    qed
  qed
qed

lemma organize_try_fields:
  assumes "organize_try io source destination dest_path pinfo st = (st', r)"
    and "path_filename dest_path = path_filename source"
  shows "cerr st' = cerr st \<and>
     (r \<noteq> None \<longrightarrow> processed_files st' = processed_files st \<and> copied st' = copied st) \<and>
     (r = None \<longrightarrow>
        processed_files st' = insert (to_lower (path_filename source)) (processed_files st) \<and>
        ((\<exists>t. copied st' = copied st @ [(source, t)]) \<or>
         (copied st' = copied st \<and> to_lower (path_filename source) \<in> processed_files st)))"
proof (cases "create_parent_directories io (fsys st) dest_path")
  case (Pair t eo)
  show ?thesis
  proof (cases eo)
    case (Some e)
    with Pair assms show ?thesis by (auto simp: organize_try_def)
  next
    case None
    let ?st = "print_request source dest_path pinfo (st\<lparr>fsys := t\<rparr>)"
    from None Pair assms have "place_file io source destination dest_path pinfo ?st = (st', r)"
      by (simp add: organize_try_def)
    from place_file_fields [OF this assms(2)] show ?thesis
      by (simp add: print_request_def split: if_splits)
  qed
qed

lemma organize_file_registry:
  assumes "registry_inv st"
  shows "registry_inv (organize_file io source destination pinfo st) \<and>
     processed_files st \<subseteq> processed_files (organize_file io source destination pinfo st)"
proof (cases "is_audio_file source")
  case False
  with assms show ?thesis by (simp add: organize_file_def)
next
  case True
  obtain st' r where t: "organize_try io source destination (candidate_path source destination) pinfo st = (st', r)"
    by (cases "organize_try io source destination (candidate_path source destination) pinfo st")
  from organize_try_fields [OF t path_filename_candidate]
  have f: "(r \<noteq> None \<longrightarrow> processed_files st' = processed_files st \<and> copied st' = copied st) \<and>
     (r = None \<longrightarrow>
        processed_files st' = insert (to_lower (path_filename source)) (processed_files st) \<and>
        ((\<exists>t. copied st' = copied st @ [(source, t)]) \<or>
         (copied st' = copied st \<and> to_lower (path_filename source) \<in> processed_files st)))"
    by blast
  show ?thesis
  proof (cases r)
    case None
    with True t have o: "organize_file io source destination pinfo st = st'"
      by (simp add: organize_file_def Let_def)
    from None f assms show ?thesis unfolding o registry_inv_def by auto
  next
    case (Some e)
    with True t have o: "organize_file io source destination pinfo st = st'\<lparr>cerr := cerr st' @ [Error_copying_file e]\<rparr>"
      by (simp add: organize_file_def Let_def)
    from Some f assms show ?thesis unfolding o registry_inv_def by auto
  qed
qed


lemma for_each_entry_invariant:
  assumes rec: "\<And>p s s'. P s \<Longrightarrow> recurse p s = Some s' \<Longrightarrow> P s'"
    and step: "\<And>p s. P s \<Longrightarrow> P (organize_file io p destination pinfo s)"
  shows "P st \<Longrightarrow> for_each_entry recurse io entries destination pinfo st = Some (st', r) \<Longrightarrow> P st'"
proof (induction entries arbitrary: st)
  case Nil
  then show ?case by simp
next
  case (Cons entry entries)
  show ?case
  proof (cases "fs_is_directory io (fsys st) entry")
    case (Inl e)
    with Cons.prems show ?thesis by simp
  next
    case (Inr b)
    show ?thesis
    proof (cases b)
      case True
      with Inr Cons.prems obtain s1 where s1: "recurse entry st = Some s1"
        and rest: "for_each_entry recurse io entries destination pinfo s1 = Some (st', r)"
        by (auto split: option.splits)
      from rec [OF Cons.prems(1) s1] have "P s1" .
      from Cons.IH [OF this rest] show ?thesis .
    next
      case False
      with Inr Cons.prems have rest: "for_each_entry recurse io entries destination pinfo
          (organize_file io entry destination pinfo st) = Some (st', r)"
        by simp
      from Cons.IH [OF step [OF Cons.prems(1)] rest] show ?thesis .
    qed
  qed
qed

lemma process_directory_invariant:
  assumes step: "\<And>p s. P s \<Longrightarrow> P (organize_file io p destination pinfo s)"
    and log: "\<And>s m. P s \<Longrightarrow> P (s\<lparr>cerr := m\<rparr>)"
  shows "P st \<Longrightarrow> process_directory n io source destination pinfo st = Some st' \<Longrightarrow> P st'"
proof (induction n arbitrary: source st st')
  case 0
  then show ?case by simp
next
  case (Suc n)
  show ?case
  proof (cases "fs_directory_iterator io (fsys st) source")
    case (Inl e)
    with Suc.prems log show ?thesis by auto
  next
    case (Inr entries)
    with Suc.prems obtain s1 r where
      loop: "for_each_entry (\<lambda>p s. process_directory n io p destination pinfo s) io entries
               destination pinfo st = Some (s1, r)"
      and res: "st' = (case r of None \<Rightarrow> s1 | Some e \<Rightarrow> s1\<lparr>cerr := cerr s1 @ [Error_processing_file_system e]\<rparr>)"
      by (auto split: option.splits prod.splits)
    have "P s1"
      by (rule for_each_entry_invariant [where P = P, OF _ step Suc.prems(1) loop])
         (rule Suc.IH)
    with res log show ?thesis by (cases r) auto
  qed
qed

lemma registry_inv_log: "registry_inv (s\<lparr>cerr := m\<rparr>) = registry_inv s"
  by (simp add: registry_inv_def)

section \<open>The registry during a run (C3)\<close>

text \<open>
  C3. The registry is empty in the initial state. Placing a file and walking a directory
  never remove a name from it. At every point of a run a lower-cased file name is in the
  registry if and only if a copy of a source file with that name has completed: the
  property holds initially, \<open>organize_file\<close> and \<open>process_directory\<close> keep it, and it
  holds in the state the program ends with.
\<close>

theorem registry_invariant:
  "registry_inv (initial_state t) \<and> processed_files (initial_state t) = {} \<and>
   (registry_inv st \<longrightarrow>
      registry_inv (organize_file io source destination print_info st) \<and>
      processed_files st \<subseteq> processed_files (organize_file io source destination print_info st)) \<and>
   (registry_inv st \<and> process_directory n io source destination print_info st = Some st' \<longrightarrow>
      registry_inv st' \<and> processed_files st \<subseteq> processed_files st') \<and>
   (main_run n io source destination print_info t = Some (Inr (code, st')) \<longrightarrow> registry_inv st')"
proof -
  have a: "registry_inv (initial_state t) \<and> processed_files (initial_state t) = {}"
    by (simp add: registry_inv_def initial_state_def)
  have c: "registry_inv st' \<and> processed_files st \<subseteq> processed_files st'"
    if inv: "registry_inv st" and run: "process_directory n io source destination print_info st = Some st'"
  proof -
    let ?P = "\<lambda>s. registry_inv s \<and> processed_files st \<subseteq> processed_files s"
    have "?P st'"
    proof (rule process_directory_invariant [where P = ?P, OF _ _ _ run])
      show "?P st" using inv by simp
    next
      fix p s assume "?P s"
      with organize_file_registry [of s io p destination print_info]
      show "?P (organize_file io p destination print_info s)" by blast
    next
      fix s m assume "?P s"
      then show "?P (s\<lparr>cerr := m\<rparr>)" by (simp add: registry_inv_log)
    qed
    then show ?thesis .
  qed
  have d: "registry_inv st'"
    if run: "main_run n io source destination print_info t = Some (Inr (code, st'))"
  proof (cases "fs_exists io t source")
    case (Inl e)
    with run show ?thesis by (simp add: main_run_def)
  next
    case (Inr b)
    show ?thesis
    proof (cases b)
      case False
      with Inr run show ?thesis by (auto simp: main_run_def initial_state_def registry_inv_def)
    next
      case True
      with Inr run obtain u s where
        pd: "process_directory n io source destination print_info (initial_state u) = Some s"
        and res: "st' = s\<lparr>cout := cout s @ [Splice_files_organized_successfully]\<rparr>"
        by (auto simp: main_run_def split: sum.splits option.splits)
      have "registry_inv (initial_state u)" by (simp add: registry_inv_def initial_state_def)
      from process_directory_invariant [where P = registry_inv, OF _ _ this pd]
      have "registry_inv s" using organize_file_registry registry_inv_log by blast
      with res show ?thesis by (simp add: registry_inv_def)
    qed
  qed
  from a organize_file_registry c d show ?thesis by blast
qed


theorem registry_invariant_witness:
  "process_directory 3 no_io [''src''] [''dst''] False (initial_state tree_one_kick) =
     Some placed_one_kick \<and>
   registry_inv placed_one_kick \<and> processed_files placed_one_kick = {''kick.wav''}"
proof -
  have "registry_inv (initial_state tree_one_kick)"
    using registry_invariant [of tree_one_kick] by blast
  with run_one_kick have "registry_inv placed_one_kick"
    using registry_invariant [where t = tree_one_kick and st = "initial_state tree_one_kick"
        and io = no_io and source = "[''src'']" and destination = "[''dst'']"
        and print_info = False and n = 3 and st' = placed_one_kick]
    by blast
  with run_one_kick show ?thesis by (simp add: placed_one_kick_def)
qed

section \<open>The frame of the file system calls\<close>

lemma modifies_refl: "modifies dst t t"
  by (simp add: modifies_def)

lemma modifies_trans: "modifies dst t t' \<Longrightarrow> modifies dst t' t'' \<Longrightarrow> modifies dst t t''"
  unfolding modifies_def by (metis (no_types, lifting))

lemma node_at_update:
  "node_at (AList.update k v t) p = (if p \<noteq> [] \<and> p = k then Some v else node_at t p)"
  by (simp add: node_at_def update_conv')

lemma node_at_delete:
  "node_at (AList.delete k t) p = (if p \<noteq> [] \<and> p = k then None else node_at t p)"
  by (simp add: node_at_def delete_conv')

lemma keys_update: "fst ` set (AList.update k v t) = insert k (fst ` set t)"
  by (simp add: dom_update)

lemma keys_delete: "fst ` set (AList.delete k t) = fst ` set t - {k}"
  by (induction t) auto

lemma map_fst_update:
  "map fst (AList.update k v t) = (if k \<in> fst ` set t then map fst t else map fst t @ [k])"
  by (simp add: update_keys)

lemma dir_entries_update:
  "k = [] \<or> butlast k \<noteq> d \<Longrightarrow> dir_entries (AList.update k v t) d = dir_entries t d"
  by (auto simp: dir_entries_def map_fst_update)

lemma dir_entries_delete:
  "k = [] \<or> butlast k \<noteq> d \<Longrightarrow> dir_entries (AList.delete k t) d = dir_entries t d"
proof -
  assume a: "k = [] \<or> butlast k \<noteq> d"
  have "filter (\<lambda>p. p \<noteq> [] \<and> butlast p = d) (map fst (AList.delete k t)) =
        filter (\<lambda>p. p \<noteq> [] \<and> butlast p = d) (map fst t)"
    using a by (induction t) auto
  then show ?thesis by (simp add: dir_entries_def)
qed

lemma key_iff_node: "p \<noteq> [] \<Longrightarrow> (p \<in> fst ` set t) = (node_at t p \<noteq> None)"
  by (simp add: node_at_def map_of_eq_None_iff)

lemma butlast_prefix: "k \<noteq> [] \<Longrightarrow> prefix dst k \<Longrightarrow> k \<noteq> dst \<Longrightarrow> prefix dst (butlast k)"
  by (metis prefix_order.le_less strict_prefix_def prefixE append_butlast_last_id butlast_append prefixI
      append_Nil2 butlast.simps(1))


lemma modifies_update:
  assumes "prefix dst k \<or> (prefix k dst \<and> node_at t k = None)"
    and "length k \<le> length dst + 3"
  shows "modifies dst t (AList.update k v t)"
proof -
  have k: "k \<noteq> []" if "\<not> prefix dst k"
    using that assms(1) by (auto simp: node_at_def)
  have 1: "node_at (AList.update k v t) p = node_at t p"
    if "\<not> prefix dst p" "node_at t p \<noteq> None" for p
    using that assms(1) by (auto simp: node_at_update)
  have 2: "node_at (AList.update k v t) p = node_at t p \<and>
      dir_entries (AList.update k v t) p = dir_entries t p"
    if np: "\<not> prefix dst p" "\<not> prefix p dst" for p
  proof -
    have "p \<noteq> k" using np assms(1) by auto
    then have a: "node_at (AList.update k v t) p = node_at t p"
      by (simp add: node_at_update)
    have "k = [] \<or> butlast k \<noteq> p"
    proof (rule ccontr)
      assume "\<not> (k = [] \<or> butlast k \<noteq> p)"
      then have kk: "k \<noteq> []" "butlast k = p" by auto
      then have pk: "prefix p k" by (metis prefixeq_butlast)
      from assms(1) show False
      proof
        assume dk: "prefix dst k"
        show False
        proof (cases "k = dst")
          case True
          with kk have "prefix p dst" by (metis prefixeq_butlast)
          with np show False by simp
        next
          case False
          with dk kk have "prefix dst p" using butlast_prefix by blast
          with np show False by simp
        qed
      next
        assume "prefix k dst \<and> node_at t k = None"
        with pk have "prefix p dst" by (meson prefix_order.trans)
        with np show False by simp
      qed
    qed
    then have "dir_entries (AList.update k v t) p = dir_entries t p"
      by (rule dir_entries_update)
    with a show ?thesis by simp
  qed
  have 3: "\<forall>x \<in> fst ` set (AList.update k v t). x \<in> fst ` set t \<or> length x \<le> length dst + 3"
    using assms(2) by (auto simp: keys_update)
  from 1 2 3 show ?thesis unfolding modifies_def by blast
qed

lemma modifies_delete:
  assumes "prefix dst k"
  shows "modifies dst t (AList.delete k t)"
proof -
  have 1: "node_at (AList.delete k t) p = node_at t p" if "\<not> prefix dst p" for p
    using that assms by (auto simp: node_at_delete node_at_def)
  have 2: "dir_entries (AList.delete k t) p = dir_entries t p"
    if np: "\<not> prefix dst p" "\<not> prefix p dst" for p
  proof -
    have "k = [] \<or> butlast k \<noteq> p"
    proof (rule ccontr)
      assume "\<not> (k = [] \<or> butlast k \<noteq> p)"
      then have kk: "k \<noteq> []" "butlast k = p" by auto
      show False
      proof (cases "k = dst")
        case True
        with kk have "prefix p dst" by (metis prefixeq_butlast)
        with np show False by simp
      next
        case False
        with assms kk have "prefix dst p" using butlast_prefix by blast
        with np show False by simp
      qed
    qed
    then show ?thesis by (rule dir_entries_delete)
  qed
  have 3: "\<forall>x \<in> fst ` set (AList.delete k t). x \<in> fst ` set t \<or> length x \<le> length dst + 3"
    by (auto simp: keys_delete)
  from 1 2 3 show ?thesis unfolding modifies_def by blast
qed

lemma create_from_modifies:
  "create_from io pre cs t = (t', r) \<Longrightarrow> prefix dst (pre @ cs) \<Longrightarrow>
   length (pre @ cs) \<le> length dst + 3 \<Longrightarrow> modifies dst t t'"
proof (induction cs arbitrary: pre t)
  case Nil
  then show ?case by (simp add: modifies_refl)
next
  case (Cons c cs)
  let ?q = "pre @ [c]"
  have target: "prefix dst (?q @ cs)" "length (?q @ cs) \<le> length dst + 3"
    using Cons.prems by simp_all
  have cmp: "prefix dst ?q \<or> prefix ?q dst"
    using target(1) by (meson prefixI prefix_same_cases)
  have len: "length ?q \<le> length dst + 3" using target(2) by simp
  show ?case
  proof (cases "node_at t ?q")
    case None
    show ?thesis
    proof (cases "io (Op_create_directory ?q)")
      case True
      with None Cons.prems(1) show ?thesis by (simp add: modifies_refl)
    next
      case False
      with None Cons.prems(1) have "create_from io ?q cs (AList.update ?q Dir t) = (t', r)"
        by simp
      from Cons.IH [OF this target] have m2: "modifies dst (AList.update ?q Dir t) t'" .
      from cmp None len have "modifies dst t (AList.update ?q Dir t)"
        by (intro modifies_update) auto
      then show ?thesis using m2 by (rule modifies_trans)
    qed
  next
    case (Some nd)
    show ?thesis
    proof (cases nd)
      case (File d)
      with Some Cons.prems(1) show ?thesis by (simp add: modifies_refl)
    next
      case Dir
      with Some Cons.prems(1) have "create_from io ?q cs t = (t', r)" by simp
      from Cons.IH [OF this target] show ?thesis .
    qed
  qed
qed

lemma create_parent_directories_modifies:
  "create_parent_directories io t (destination @ [g, s, f]) = (t', r) \<Longrightarrow> modifies destination t t'"
proof -
  assume a: "create_parent_directories io t (destination @ [g, s, f]) = (t', r)"
  have b: "butlast (destination @ [g, s, f]) = destination @ [g, s]"
    by (simp add: butlast_append)
  from a have c: "create_from io [] (destination @ [g, s]) t = (t', r)"
    unfolding create_parent_directories_def fs_create_directories_def parent_path_def b .
  have "prefix destination ([] @ destination @ [g, s])" by (simp add: prefix_def)
  moreover have "length ([] @ destination @ [g, s]) \<le> length destination + 3" by simp
  ultimately show ?thesis using c create_from_modifies by blast
qed

lemma fs_copy_file_modifies:
  "fs_copy_file io t src tgt = Inr t' \<Longrightarrow> prefix dst tgt \<Longrightarrow> length tgt \<le> length dst + 3 \<Longrightarrow>
   modifies dst t t'"
  unfolding fs_copy_file_def
  by (auto split: if_splits option.splits node.splits intro: modifies_update)

lemma fs_remove_modifies:
  "fs_remove io t p = Inr t' \<Longrightarrow> prefix dst p \<Longrightarrow> modifies dst t t'"
  unfolding fs_remove_def
  by (auto split: if_splits option.splits node.splits intro: modifies_delete modifies_refl)

lemma copy_and_report_modifies:
  "copy_and_report io src tgt pinfo st = Inr st' \<Longrightarrow> prefix dst tgt \<Longrightarrow>
   length tgt \<le> length dst + 3 \<Longrightarrow> modifies dst (fsys st) (fsys st')"
  unfolding copy_and_report_def
  by (auto simp: Let_def print_file_move_info_def split: sum.splits if_splits
      dest: fs_copy_file_modifies)


lemma indexed_copy_modifies:
  "indexed_copy io source destination pinfo i st = (st', r) \<Longrightarrow>
   modifies destination (fsys st) (fsys st')"
proof (induction io source destination pinfo i st rule: indexed_copy.induct)
  case (1 io source destination pinfo i st)
  let ?p = "destination @ [append_index_to_filename [path_filename source] i]"
  have pl: "prefix destination ?p" "length ?p \<le> length destination + 3"
    by (simp_all add: prefix_def)
  show ?case
  proof (cases "i < 999999")
    case False
    with "1.prems" show ?thesis by (simp add: indexed_copy.simps modifies_refl)
  next
    case True
    show ?thesis
    proof (cases "fs_exists io (fsys st) ?p")
      case (Inl e)
      with True "1.prems" show ?thesis by (simp add: indexed_copy.simps modifies_refl)
    next
      case (Inr b)
      show ?thesis
      proof (cases b)
        case True
        with \<open>i < 999999\<close> Inr "1.prems" "1.IH" show ?thesis
          by (simp add: indexed_copy.simps)
      next
        case False
        show ?thesis
        proof (cases "copy_and_report io source ?p pinfo st")
          case (Inl e)
          with False \<open>i < 999999\<close> Inr "1.prems" show ?thesis
            by (simp add: indexed_copy.simps modifies_refl)
        next
          case (Inr s2)
          with False \<open>i < 999999\<close> \<open>fs_exists io (fsys st) ?p = Inr b\<close> "1.prems"
          have "s2 = st'" by (simp add: indexed_copy.simps)
          with Inr pl show ?thesis using copy_and_report_modifies by blast
        qed
      qed
    qed
  qed
qed

lemma fsys_mark_processed [simp]: "fsys (mark_processed source st) = fsys st"
  by (simp add: mark_processed_def)

lemma fsys_print_request [simp]: "fsys (print_request source d pinfo st) = fsys st"
  by (simp add: print_request_def)

lemma copy_fresh_modifies:
  "copy_fresh io source tgt pinfo st = (st', r) \<Longrightarrow> prefix dst tgt \<Longrightarrow>
   length tgt \<le> length dst + 3 \<Longrightarrow> modifies dst (fsys st) (fsys st')"
  unfolding copy_fresh_def
  by (cases "copy_and_report io source tgt pinfo st")
     (auto simp: modifies_refl dest: copy_and_report_modifies)

lemma copy_overwrite_modifies:
  assumes "copy_overwrite io source tgt pinfo st = (st', r)" "prefix dst tgt"
    "length tgt \<le> length dst + 3"
  shows "modifies dst (fsys st) (fsys st')"
proof (cases "fs_remove io (fsys st) tgt")
  case (Inl e)
  with assms show ?thesis by (simp add: copy_overwrite_def modifies_refl)
next
  case (Inr t)
  with assms have "copy_fresh io source tgt pinfo (st\<lparr>fsys := t\<rparr>) = (st', r)"
    by (simp add: copy_overwrite_def)
  from copy_fresh_modifies [OF this assms(2,3)] have "modifies dst t (fsys st')" by simp
  moreover from Inr assms(2) have "modifies dst (fsys st) t" by (rule fs_remove_modifies)
  ultimately show ?thesis using modifies_trans by blast
qed

lemma copy_indexed_modifies:
  "copy_indexed io source destination pinfo st = (st', r) \<Longrightarrow>
   modifies destination (fsys st) (fsys st')"
  unfolding copy_indexed_def
  by (cases "indexed_copy io source destination pinfo 0 st")
     (auto dest: indexed_copy_modifies split: option.splits)

lemma place_file_modifies:
  assumes "place_file io source destination tgt pinfo st = (st', r)" "prefix destination tgt"
    "length tgt \<le> length destination + 3"
  shows "modifies destination (fsys st) (fsys st')"
proof (cases "fs_exists io (fsys st) tgt")
  case (Inl e)
  with assms show ?thesis by (simp add: place_file_def modifies_refl)
next
  case (Inr b)
  show ?thesis
  proof (cases b)
    case False
    with Inr assms have "copy_fresh io source tgt pinfo st = (st', r)"
      by (simp add: place_file_def)
    from copy_fresh_modifies [OF this assms(2,3)] show ?thesis .
  next
    case True
    show ?thesis
    proof (cases "file_already_processed tgt st")
      case False
      with True Inr assms have "copy_overwrite io source tgt pinfo st = (st', r)"
        by (simp add: place_file_def)
      from copy_overwrite_modifies [OF this assms(2,3)] show ?thesis .
    next
      case fap: True
      with True Inr assms have "copy_indexed io source destination pinfo st = (st', r)"
        by (simp add: place_file_def)
      from copy_indexed_modifies [OF this] show ?thesis .
    qed
  qed
qed

lemma candidate_path_shape:
  "\<exists>g s. candidate_path source destination = destination @ [g, s, path_filename source]"
  by (simp add: candidate_path_def Let_def)

lemma organize_try_modifies:
  assumes "organize_try io source destination (candidate_path source destination) pinfo st = (st', r)"
  shows "modifies destination (fsys st) (fsys st')"
proof -
  obtain g s where cp: "candidate_path source destination = destination @ [g, s, path_filename source]"
    using candidate_path_shape by blast
  let ?d = "destination @ [g, s, path_filename source]"
  have pl: "prefix destination ?d" "length ?d \<le> length destination + 3"
    by (simp_all add: prefix_def)
  obtain t eo where mk: "create_parent_directories io (fsys st) ?d = (t, eo)"
    by (cases "create_parent_directories io (fsys st) ?d")
  from mk have m1: "modifies destination (fsys st) t"
    by (rule create_parent_directories_modifies)
  show ?thesis
  proof (cases eo)
    case (Some e)
    with mk assms cp m1 show ?thesis by (auto simp: organize_try_def)
  next
    case None
    let ?st = "print_request source ?d pinfo (st\<lparr>fsys := t\<rparr>)"
    from None mk assms cp have "place_file io source destination ?d pinfo ?st = (st', r)"
      by (simp add: organize_try_def)
    from place_file_modifies [OF this pl] have "modifies destination t (fsys st')" by simp
    with m1 show ?thesis using modifies_trans by blast
  qed
qed

lemma organize_file_modifies:
  "modifies destination (fsys st) (fsys (organize_file io source destination pinfo st))"
proof (cases "is_audio_file source")
  case False
  then show ?thesis by (simp add: organize_file_def modifies_refl)
next
  case True
  obtain st' r where t: "organize_try io source destination (candidate_path source destination) pinfo st = (st', r)"
    by (cases "organize_try io source destination (candidate_path source destination) pinfo st")
  from organize_try_modifies [OF t] True t show ?thesis
    by (cases r) (simp_all add: organize_file_def Let_def)
qed

section \<open>The walk returns\<close>


lemma dir_entries_member:
  "e \<in> set (dir_entries t d) \<Longrightarrow> e \<in> fst ` set t \<and> e \<noteq> [] \<and> butlast e = d"
  by (auto simp: dir_entries_def)

lemma dir_entries_length:
  "e \<in> set (dir_entries t d) \<Longrightarrow> length e = Suc (length d)"
  by (auto simp: dir_entries_def)









section \<open>Failures of file system calls (C5)\<close>


lemmas main_eval = main_run_def taxonomy_def

lemma main_two:
  "main_run 2 io_copy_a_fails [''src''] [''dst''] False tree_two = Some (Inr (0, after_two))"
  by (simp add: numeral_2_eq_2 main_eval path_eval fs_eval prog_eval tree_two_def after_two_def
      io_copy_a_fails_def Let_def)

lemma main_in_place:
  "main_run 3 no_io [''lib''] [''lib''] False tree_in_place = Some (Inr (0, in_place_after))"
  by (simp add: numeral_3_eq_3 main_eval path_eval fs_eval prog_eval tree_in_place_def
      in_place_after_def Let_def)




section \<open>The frame of a run\<close>

lemma process_directory_modifies:
  assumes "process_directory n io source destination pinfo st = Some st'"
  shows "modifies destination (fsys st) (fsys st')"
proof (rule process_directory_invariant
    [where P = "\<lambda>s. modifies destination (fsys st) (fsys s)", OF _ _ _ assms])
  show "modifies destination (fsys st) (fsys st)" by (rule modifies_refl)
next
  fix p and s :: state
  assume "modifies destination (fsys st) (fsys s)"
  then show "modifies destination (fsys st) (fsys (organize_file io p destination pinfo s))"
    using organize_file_modifies modifies_trans by blast
next
  fix s :: state and m
  assume "modifies destination (fsys st) (fsys s)"
  then show "modifies destination (fsys st) (fsys (s\<lparr>cerr := m\<rparr>))" by simp
qed

lemma create_folders_modifies:
  "create_folders io destination gs t = Inr t' \<Longrightarrow> modifies destination t t'"
proof (induction gs arbitrary: t)
  case Nil
  then show ?case by (simp add: modifies_refl)
next
  case (Cons g gs)
  obtain t1 r where c: "fs_create_directories io t (destination @ [fst g, snd g]) = (t1, r)"
    by (cases "fs_create_directories io t (destination @ [fst g, snd g])")
  with Cons.prems have r: "r = None" and rest: "create_folders io destination gs t1 = Inr t'"
    by (auto split: option.splits)
  have "prefix destination ([] @ destination @ [fst g, snd g])" by (simp add: prefix_def)
  moreover have "length ([] @ destination @ [fst g, snd g]) \<le> length destination + 3" by simp
  ultimately have "modifies destination t t1"
    using c create_from_modifies unfolding fs_create_directories_def by blast
  with Cons.IH [OF rest] show ?case using modifies_trans by blast
qed

lemma main_run_modifies:
  assumes "main_run n io source destination pinfo t = Some (Inr (c, st'))"
  shows "modifies destination t (fsys st')"
proof (cases "fs_exists io t source")
  case (Inl e)
  with assms show ?thesis by (simp add: main_run_def)
next
  case (Inr b)
  show ?thesis
  proof (cases b)
    case False
    with Inr assms show ?thesis by (auto simp: main_run_def initial_state_def modifies_refl)
  next
    case True
    with Inr assms obtain t' s where cf: "create_folders io destination taxonomy t = Inr t'"
      and pd: "process_directory n io source destination pinfo (initial_state t') = Some s"
      and res: "st' = s\<lparr>cout := cout s @ [Splice_files_organized_successfully]\<rparr>"
      by (auto simp: main_run_def split: sum.splits option.splits)
    from process_directory_modifies [OF pd] have "modifies destination t' (fsys s)"
      by (simp add: initial_state_def)
    with create_folders_modifies [OF cf] res show ?thesis
      using modifies_trans by auto
  qed
qed

lemma modifies_outside:
  "modifies dst t t' \<Longrightarrow> \<not> prefix dst p \<Longrightarrow> node_at t p \<noteq> None \<Longrightarrow> node_at t' p = node_at t p"
  unfolding modifies_def by blast

lemma modifies_disjoint:
  assumes "modifies dst t t'" "\<not> prefix src dst" "\<not> prefix dst src" "prefix src p"
  shows "node_at t' p = node_at t p \<and> dir_entries t' p = dir_entries t p"
proof -
  have "\<not> prefix dst p"
    using assms(2,3,4) by (meson prefix_same_cases)
  moreover have "\<not> prefix p dst"
    using assms(2,4) by (meson prefix_order.trans)
  ultimately show ?thesis using assms(1) unfolding modifies_def by blast
qed

section \<open>The source tree after a run (C9)\<close>

text \<open>
  C9, as amended. \<open>organize_file\<close>, \<open>process_directory\<close> and the whole program leave every
  node that exists outside the destination root as it is: what they write, and the one
  thing they delete, lies under the destination root. When neither root is a prefix of
  the other, every path under the source root therefore has the same node, and as a
  directory the same entries, before and after the run.
\<close>

theorem source_tree_kept:
  "(\<forall>p. \<not> prefix destination p \<and> node_at (fsys st) p \<noteq> None \<longrightarrow>
        node_at (fsys (organize_file io source destination print_info st)) p = node_at (fsys st) p) \<and>
   (process_directory n io source destination print_info st = Some st' \<longrightarrow>
      (\<forall>p. \<not> prefix destination p \<and> node_at (fsys st) p \<noteq> None \<longrightarrow>
           node_at (fsys st') p = node_at (fsys st) p)) \<and>
   (process_directory n io source destination print_info st = Some st' \<and>
    \<not> prefix source destination \<and> \<not> prefix destination source \<longrightarrow>
      (\<forall>p. prefix source p \<longrightarrow>
           node_at (fsys st') p = node_at (fsys st) p \<and>
           dir_entries (fsys st') p = dir_entries (fsys st) p)) \<and>
   (main_run n io source destination print_info t = Some (Inr (c, st')) \<longrightarrow>
      (\<forall>p. \<not> prefix destination p \<and> node_at t p \<noteq> None \<longrightarrow> node_at (fsys st') p = node_at t p)) \<and>
   (main_run n io source destination print_info t = Some (Inr (c, st')) \<and>
    \<not> prefix source destination \<and> \<not> prefix destination source \<longrightarrow>
      (\<forall>p. prefix source p \<longrightarrow>
           node_at (fsys st') p = node_at t p \<and> dir_entries (fsys st') p = dir_entries t p))"
proof -
  have 1: "\<forall>p. \<not> prefix destination p \<and> node_at (fsys st) p \<noteq> None \<longrightarrow>
        node_at (fsys (organize_file io source destination print_info st)) p = node_at (fsys st) p"
    using organize_file_modifies modifies_outside by blast
  have 2: "\<forall>p. \<not> prefix destination p \<and> node_at (fsys st) p \<noteq> None \<longrightarrow>
           node_at (fsys st') p = node_at (fsys st) p"
    if "process_directory n io source destination print_info st = Some st'"
    using process_directory_modifies [OF that] modifies_outside by blast
  have 3: "\<forall>p. prefix source p \<longrightarrow>
           node_at (fsys st') p = node_at (fsys st) p \<and>
           dir_entries (fsys st') p = dir_entries (fsys st) p"
    if "process_directory n io source destination print_info st = Some st'"
      "\<not> prefix source destination" "\<not> prefix destination source"
    using process_directory_modifies [OF that(1)] modifies_disjoint that(2,3) by blast
  have 4: "\<forall>p. \<not> prefix destination p \<and> node_at t p \<noteq> None \<longrightarrow> node_at (fsys st') p = node_at t p"
    if "main_run n io source destination print_info t = Some (Inr (c, st'))"
    using main_run_modifies [OF that] modifies_outside by blast
  have 5: "\<forall>p. prefix source p \<longrightarrow>
           node_at (fsys st') p = node_at t p \<and> dir_entries (fsys st') p = dir_entries t p"
    if "main_run n io source destination print_info t = Some (Inr (c, st'))"
      "\<not> prefix source destination" "\<not> prefix destination source"
    using main_run_modifies [OF that(1)] modifies_disjoint that(2,3) by blast
  from 1 2 3 4 5 show ?thesis by blast
qed

theorem source_tree_kept_witness:
  "main_run 2 io_copy_a_fails [''src''] [''dst''] False tree_two = Some (Inr (0, after_two)) \<and>
   node_at (fsys after_two) [''src'', ''a.wav''] = node_at tree_two [''src'', ''a.wav''] \<and>
   node_at (fsys after_two) [''src'', ''b.wav''] = Some (File ''B'') \<and>
   dir_entries (fsys after_two) [''src''] = dir_entries tree_two [''src'']"
proof -
  have inc: "\<not> prefix [''src''] [''dst'']" "\<not> prefix [''dst''] [''src'']" by simp_all
  have pa: "prefix [''src''] [''src'', ''a.wav'']" "prefix [''src''] [''src'', ''b.wav'']"
    "prefix [''src''] [''src'']" by simp_all
  have b: "node_at tree_two [''src'', ''b.wav''] = Some (File ''B'')"
    by (simp add: node_at_def tree_two_def)
  note k = source_tree_kept [where destination = "[''dst'']" and io = io_copy_a_fails
      and source = "[''src'']" and print_info = False and t = tree_two and c = 0
      and st' = after_two and n = 2]
  from k main_two inc have
    "\<forall>p. prefix [''src''] p \<longrightarrow>
       node_at (fsys after_two) p = node_at tree_two p \<and>
       dir_entries (fsys after_two) p = dir_entries tree_two p"
    by blast
  with pa b main_two show ?thesis by metis
qed

text \<open>
  The claim as written holds for every pair of roots. With the sorted library
  \<open>lib\<close> as source and as destination, the candidate of \<open>lib/Drums/Kick/kick.wav\<close> is the
  file itself: line 179 removes it, the copy of line 180 then finds no source, and the
  file is gone after the run.
\<close>

theorem in_place_counterexample:
  "main_run 3 no_io [''lib''] [''lib''] False tree_in_place = Some (Inr (0, in_place_after)) \<and>
   node_at tree_in_place [''lib'', ''Drums'', ''Kick'', ''kick.wav''] = Some (File ''one'') \<and>
   node_at (fsys in_place_after) [''lib'', ''Drums'', ''Kick'', ''kick.wav''] = None"
  by (simp add: main_in_place) (simp add: node_at_def tree_in_place_def in_place_after_def)

section \<open>The walk and the files below the source root\<close>

lemma entry_shape: "e \<noteq> [] \<Longrightarrow> butlast e = d \<Longrightarrow> e = d @ [last e]"
  by (metis append_butlast_last_id)

lemma dir_entries_iff:
  "e \<in> set (dir_entries t d) \<longleftrightarrow> e \<in> fst ` set t \<and> e \<noteq> [] \<and> butlast e = d"
  by (auto simp: dir_entries_def)

lemma distinct_dir_entries: "distinct (dir_entries t d)"
  by (simp add: dir_entries_def)

lemma dir_entries_prefix: "e \<in> set (dir_entries t d) \<Longrightarrow> strict_prefix d e"
  by (metis dir_entries_iff entry_shape strict_prefixI' )

lemma files_below_unfold:
  assumes d: "node_at t d = Some Dir"
  shows "files_below t d =
     (\<Union>e \<in> set (dir_entries t d). if node_at t e = Some Dir then files_below t e else {e})"
    (is "?L = ?R")
proof (rule set_eqI, rule iffI)
  fix p assume "p \<in> ?L"
  then have sp: "strict_prefix d p" and fl: "\<exists>c. node_at t p = Some (File c)"
    and mid: "\<And>q. prefix d q \<Longrightarrow> strict_prefix q p \<Longrightarrow> node_at t q = Some Dir"
    by (auto simp: files_below_def)
  from sp obtain x rest where p: "p = d @ x # rest"
    by (metis strict_prefixE' )
  let ?e = "d @ [x]"
  show "p \<in> ?R"
  proof (cases "rest = []")
    case True
    with p have pe: "p = ?e" by simp
    from fl pe have "?e \<in> fst ` set t" by (metis key_iff_node snoc_eq_iff_butlast option.distinct(1))
    then have "?e \<in> set (dir_entries t d)" by (simp add: dir_entries_iff)
    moreover from fl pe have "node_at t ?e \<noteq> Some Dir" by auto
    ultimately show ?thesis using pe by auto
  next
    case False
    with p have se: "strict_prefix ?e p" by (auto simp: strict_prefix_def prefix_def)
    have "prefix d ?e" by (simp add: prefix_def)
    from mid [OF this se] have ed: "node_at t ?e = Some Dir" .
    then have "?e \<in> fst ` set t" by (metis key_iff_node snoc_eq_iff_butlast option.distinct(1))
    then have ent: "?e \<in> set (dir_entries t d)" by (simp add: dir_entries_iff)
    have "node_at t q = Some Dir" if "prefix ?e q" "strict_prefix q p" for q
    proof -
      from that(1) have "prefix d q" by (meson append_prefixD)
      from mid [OF this that(2)] show ?thesis .
    qed
    with se fl have "p \<in> files_below t ?e" by (auto simp: files_below_def)
    with ent ed show ?thesis by auto
  qed
next
  fix p assume "p \<in> ?R"
  then obtain e where ent: "e \<in> set (dir_entries t d)"
    and pe: "p \<in> (if node_at t e = Some Dir then files_below t e else {e})"
    by blast
  from ent have ek: "e \<in> fst ` set t" "e \<noteq> []" "butlast e = d" by (simp_all add: dir_entries_iff)
  then have e: "e = d @ [last e]" using entry_shape by blast
  have de: "strict_prefix d e" using ent by (rule dir_entries_prefix)
  have below_e: "q = d" if "prefix d q" "strict_prefix q e" for q
  proof -
    from that(2) e have "prefix q d"
      by (metis prefix_snoc strict_prefix_def)
    with that(1) show ?thesis by (simp add: prefix_order.antisym)
  qed
  show "p \<in> ?L"
  proof (cases "node_at t e = Some Dir")
    case True
    with pe have pf: "strict_prefix e p" "\<exists>c. node_at t p = Some (File c)"
      and mid: "\<And>q. prefix e q \<Longrightarrow> strict_prefix q p \<Longrightarrow> node_at t q = Some Dir"
      by (auto simp: files_below_def)
    have "node_at t q = Some Dir" if q: "prefix d q" "strict_prefix q p" for q
    proof -
      from q(2) pf(1) have "prefix q e \<or> prefix e q"
        by (meson prefix_same_cases strict_prefix_def prefix_order.less_imp_le)
      then show ?thesis
      proof
        assume "prefix e q"
        from mid [OF this q(2)] show ?thesis .
      next
        assume qe: "prefix q e"
        show ?thesis
        proof (cases "q = e")
          case True
          with \<open>node_at t e = Some Dir\<close> show ?thesis by simp
        next
          case False
          with qe have "strict_prefix q e" by (simp add: strict_prefix_def)
          from below_e [OF q(1) this] d show ?thesis by simp
        qed
      qed
    qed
    moreover from de pf(1) have "strict_prefix d p" by (meson prefix_order.less_trans)
    ultimately show ?thesis using pf(2) by (auto simp: files_below_def)
  next
    case False
    with pe have p: "p = e" by simp
    from ek have "node_at t e \<noteq> None" by (simp add: key_iff_node)
    with False obtain c where "node_at t e = Some (File c)"
      by (cases "node_at t e") (auto, metis node.exhaust)
    moreover have "node_at t q = Some Dir" if "prefix d q" "strict_prefix q e" for q
      using below_e [OF that] d by simp
    ultimately show ?thesis using de p by (auto simp: files_below_def)
  qed
qed

lemma files_below_prefix: "p \<in> files_below t e \<Longrightarrow> strict_prefix e p"
  by (simp add: files_below_def)

lemma distinct_concat_entries:
  assumes "distinct es" "\<forall>e \<in> set es. length e = m"
    and "\<forall>e \<in> set es. distinct (f e) \<and> (\<forall>p \<in> set (f e). prefix e p)"
  shows "distinct (concat (map f es))"
  using assms
proof (induction es)
  case Nil
  then show ?case by simp
next
  case (Cons e es)
  have "set (f e) \<inter> set (f e') = {}" if e': "e' \<in> set es" for e'
  proof (rule ccontr)
    assume "set (f e) \<inter> set (f e') \<noteq> {}"
    then obtain p where "p \<in> set (f e)" "p \<in> set (f e')" by blast
    with Cons.prems(3) e' have "prefix e p" "prefix e' p" by auto
    then have "prefix e e' \<or> prefix e' e" by (meson prefix_same_cases)
    moreover from Cons.prems(2) e' have "length e = length e'" by simp
    ultimately have "e = e'" by (auto simp: prefix_def)
    with Cons.prems(1) e' show False by simp
  qed
  with Cons show ?case by auto
qed

lemma walk_files:
  "bounded B t \<Longrightarrow> node_at t d = Some Dir \<Longrightarrow> 1 \<le> n \<Longrightarrow> B + 1 \<le> n + length d \<Longrightarrow>
   distinct (walk n t d) \<and> set (walk n t d) = files_below t d"
proof (induction n arbitrary: d)
  case 0
  then show ?case by simp
next
  case (Suc n)
  let ?f = "\<lambda>e. if node_at t e = Some Dir then walk n t e else [e]"
  have ih: "distinct (walk n t e) \<and> set (walk n t e) = files_below t e"
    if e: "e \<in> set (dir_entries t d)" "node_at t e = Some Dir" for e
  proof -
    from e(1) have "e \<in> fst ` set t" "length e = Suc (length d)"
      using dir_entries_member dir_entries_length by blast+
    with Suc.prems(1) have "Suc (length d) \<le> B" by (auto simp: bounded_def)
    with Suc.prems(4) \<open>length e = Suc (length d)\<close>
    have "1 \<le> n" "B + 1 \<le> n + length e" by simp_all
    from Suc.IH [OF Suc.prems(1) e(2) this] show ?thesis .
  qed
  have part: "distinct (?f e) \<and> (\<forall>p \<in> set (?f e). prefix e p) \<and>
      set (?f e) = (if node_at t e = Some Dir then files_below t e else {e})"
    if e: "e \<in> set (dir_entries t d)" for e
  proof (cases "node_at t e = Some Dir")
    case True
    with ih [OF e] show ?thesis
      by (auto dest: files_below_prefix simp: strict_prefix_def)
  next
    case False
    then show ?thesis by simp
  qed
  have "distinct (concat (map ?f (dir_entries t d)))"
  proof (rule distinct_concat_entries [where m = "Suc (length d)"])
    show "distinct (dir_entries t d)" by (rule distinct_dir_entries)
    show "\<forall>e \<in> set (dir_entries t d). length e = Suc (length d)"
      using dir_entries_length by blast
    show "\<forall>e \<in> set (dir_entries t d). distinct (?f e) \<and> (\<forall>p \<in> set (?f e). prefix e p)"
      using part by blast
  qed
  moreover have "set (concat (map ?f (dir_entries t d))) = files_below t d"
  proof -
    have "set (concat (map ?f (dir_entries t d))) = (\<Union>e \<in> set (dir_entries t d). set (?f e))"
      by (simp only: set_concat set_map image_image)
    also have "\<dots> =
        (\<Union>e \<in> set (dir_entries t d). if node_at t e = Some Dir then files_below t e else {e})"
      using part by (intro SUP_cong refl) blast
    also have "\<dots> = files_below t d"
      by (rule files_below_unfold [OF Suc.prems(2), symmetric])
    finally show ?thesis .
  qed
  ultimately show ?case by simp
qed

lemma same_below_step:
  assumes "same_below src orig t" "modifies dst t t'" "\<not> prefix src dst" "\<not> prefix dst src"
  shows "same_below src orig t'"
  unfolding same_below_def
proof (intro allI impI)
  fix p assume p: "prefix src p"
  from modifies_disjoint [OF assms(2,3,4) p] assms(1) p
  show "node_at t' p = node_at orig p \<and> dir_entries t' p = dir_entries orig p"
    by (simp add: same_below_def)
qed

lemma for_each_entry_walk:
  assumes inc: "\<not> prefix src dst" "\<not> prefix dst src"
    and nofault: "\<forall>p. prefix src p \<longrightarrow> \<not> io (Op_is_directory p)"
    and rec: "\<And>e s. e \<in> set es \<Longrightarrow> node_at orig e = Some Dir \<Longrightarrow> same_below src orig (fsys s) \<Longrightarrow>
        recurse e s = Some (foldl (\<lambda>s p. organize_file io p dst pinfo s) s (W e))"
    and recmod: "\<And>e s s'. recurse e s = Some s' \<Longrightarrow> modifies dst (fsys s) (fsys s')"
    and under: "\<forall>e \<in> set es. prefix src e"
  shows "same_below src orig (fsys st) \<Longrightarrow>
     for_each_entry recurse io es dst pinfo st =
       Some (foldl (\<lambda>s p. organize_file io p dst pinfo s) st
               (concat (map (\<lambda>e. if node_at orig e = Some Dir then W e else [e]) es)), None)"
  using rec under
proof (induction es arbitrary: st)
  case Nil
  then show ?case by simp
next
  case (Cons e es)
  have pe: "prefix src e" using Cons.prems(3) by simp
  have rec': "\<And>e s. e \<in> set es \<Longrightarrow> node_at orig e = Some Dir \<Longrightarrow> same_below src orig (fsys s) \<Longrightarrow>
        recurse e s = Some (foldl (\<lambda>s p. organize_file io p dst pinfo s) s (W e))"
    using Cons.prems(2) by simp
  have under': "\<forall>e \<in> set es. prefix src e" using Cons.prems(3) by simp
  from Cons.prems(1) pe have same: "node_at (fsys st) e = node_at orig e"
    by (simp add: same_below_def)
  with nofault pe have isd: "fs_is_directory io (fsys st) e = Inr (node_at orig e = Some Dir)"
    by (simp add: fs_is_directory_def)
  show ?case
  proof (cases "node_at orig e = Some Dir")
    case True
    let ?s1 = "foldl (\<lambda>s p. organize_file io p dst pinfo s) st (W e)"
    from Cons.prems(2) [of e st] True Cons.prems(1) have r: "recurse e st = Some ?s1" by simp
    from recmod [OF r] have "modifies dst (fsys st) (fsys ?s1)" .
    with Cons.prems(1) inc have "same_below src orig (fsys ?s1)" using same_below_step by blast
    from Cons.IH [OF this rec' under'] True isd r show ?thesis by simp
  next
    case False
    let ?s1 = "organize_file io e dst pinfo st"
    have "modifies dst (fsys st) (fsys ?s1)" by (rule organize_file_modifies)
    with Cons.prems(1) inc have "same_below src orig (fsys ?s1)" using same_below_step by blast
    from Cons.IH [OF this rec' under'] False isd show ?thesis by simp
  qed
qed

lemma process_directory_walk:
  assumes inc: "\<not> prefix src dst" "\<not> prefix dst src"
    and nofault: "\<forall>p. prefix src p \<longrightarrow> \<not> io (Op_is_directory p) \<and> \<not> io (Op_directory_iterator p)"
    and bnd: "bounded B orig"
  shows "prefix src d \<Longrightarrow> node_at orig d = Some Dir \<Longrightarrow> same_below src orig (fsys st) \<Longrightarrow>
     1 \<le> n \<Longrightarrow> B + 1 \<le> n + length d \<Longrightarrow>
     process_directory n io d dst pinfo st =
       Some (foldl (\<lambda>s p. organize_file io p dst pinfo s) st (walk n orig d))"
proof (induction n arbitrary: d st)
  case 0
  then show ?case by simp
next
  case (Suc n)
  from Suc.prems(1,3) have nd: "node_at (fsys st) d = node_at orig d"
    and de: "dir_entries (fsys st) d = dir_entries orig d"
    by (simp_all add: same_below_def)
  with Suc.prems(1,2) nofault
  have it: "fs_directory_iterator io (fsys st) d = Inr (dir_entries orig d)"
    by (simp add: fs_directory_iterator_def)
  have under: "\<forall>e \<in> set (dir_entries orig d). prefix src e"
    using dir_entries_prefix Suc.prems(1)
    by (meson prefix_order.trans strict_prefix_def prefix_order.less_imp_le)
  have rec: "process_directory n io e dst pinfo s =
      Some (foldl (\<lambda>s p. organize_file io p dst pinfo s) s (walk n orig e))"
    if e: "e \<in> set (dir_entries orig d)" "node_at orig e = Some Dir" "same_below src orig (fsys s)" for e s
  proof -
    from e(1) have "e \<in> fst ` set orig" "length e = Suc (length d)"
      using dir_entries_member dir_entries_length by blast+
    with bnd have "Suc (length d) \<le> B" by (auto simp: bounded_def)
    with Suc.prems(5) \<open>length e = Suc (length d)\<close>
    have "1 \<le> n" "B + 1 \<le> n + length e" by simp_all
    moreover from under e(1) have "prefix src e" by simp
    ultimately show ?thesis using Suc.IH e(2,3) by blast
  qed
  have nf: "\<forall>p. prefix src p \<longrightarrow> \<not> io (Op_is_directory p)" using nofault by simp
  have "for_each_entry (\<lambda>p s. process_directory n io p dst pinfo s) io (dir_entries orig d) dst pinfo st =
       Some (foldl (\<lambda>s p. organize_file io p dst pinfo s) st
               (concat (map (\<lambda>e. if node_at orig e = Some Dir then walk n orig e else [e])
                  (dir_entries orig d))), None)"
    by (rule for_each_entry_walk [where src = src and orig = orig and W = "walk n orig",
          OF inc nf rec process_directory_modifies under Suc.prems(3)])
  with it show ?case by simp
qed

lemma bounded_max_depth: "bounded (max_depth t) t"
  unfolding bounded_def max_depth_def by (induction t) (auto simp: max_def)

lemma same_below_refl: "same_below root t t"
  by (simp add: same_below_def)

lemma organize_file_cerr:
  "\<exists>es. cerr (organize_file io source destination pinfo st) = cerr st @ map Error_copying_file es"
proof (cases "is_audio_file source")
  case False
  then have "cerr (organize_file io source destination pinfo st) = cerr st @ map Error_copying_file []"
    by (simp add: organize_file_def)
  then show ?thesis by blast
next
  case True
  obtain st' r where t: "organize_try io source destination (candidate_path source destination) pinfo st = (st', r)"
    by (cases "organize_try io source destination (candidate_path source destination) pinfo st")
  from organize_try_fields [OF t path_filename_candidate] have c: "cerr st' = cerr st" by blast
  show ?thesis
  proof (cases r)
    case None
    with True t c have "cerr (organize_file io source destination pinfo st) = cerr st @ map Error_copying_file []"
      by (simp add: organize_file_def Let_def)
    then show ?thesis by blast
  next
    case (Some e)
    with True t c have "cerr (organize_file io source destination pinfo st) = cerr st @ map Error_copying_file [e]"
      by (simp add: organize_file_def Let_def)
    then show ?thesis by blast
  qed
qed

lemma foldl_organize_cerr:
  "\<exists>es. cerr (foldl (\<lambda>s p. organize_file io p destination pinfo s) st ps) =
      cerr st @ map Error_copying_file es"
proof (induction ps arbitrary: st)
  case Nil
  have "cerr st = cerr st @ map Error_copying_file []" by simp
  then show ?case by (metis foldl_Nil)
next
  case (Cons p ps)
  obtain es where a: "cerr (organize_file io p destination pinfo st) = cerr st @ map Error_copying_file es"
    using organize_file_cerr by blast
  from Cons [of "organize_file io p destination pinfo st"] obtain fs where
    "cerr (foldl (\<lambda>s p. organize_file io p destination pinfo s) (organize_file io p destination pinfo st) ps) =
      cerr (organize_file io p destination pinfo st) @ map Error_copying_file fs"
    by blast
  with a have "cerr (foldl (\<lambda>s p. organize_file io p destination pinfo s) st (p # ps)) =
      cerr st @ map Error_copying_file (es @ fs)"
    by simp
  then show ?case by blast
qed

section \<open>Every file is visited once (C8)\<close>

text \<open>
  C8, as amended. When the source root is a directory, no directory below it fails to
  be listed or to be told from a file, and neither root lies inside the other, then with
  every recursion bound above the longest path of the file system the walk is a run of
  \<open>organize_file\<close> over a list without repetition that holds exactly the regular files
  below the source root, at any depth: none is visited twice, none is missed. (Of
  these, \<open>organize_file\<close> classifies the audio files and returns at once on the others.)
\<close>

theorem every_file_visited_once:
  "node_at (fsys st) source = Some Dir \<and>
   (\<forall>p. prefix source p \<longrightarrow> \<not> io (Op_is_directory p) \<and> \<not> io (Op_directory_iterator p)) \<and>
   \<not> prefix source destination \<and> \<not> prefix destination source
   \<longrightarrow> (\<forall>n > max_depth (fsys st). visits_each_file_once n io source destination print_info st)"
proof (intro impI allI)
  fix n
  assume h: "node_at (fsys st) source = Some Dir \<and>
   (\<forall>p. prefix source p \<longrightarrow> \<not> io (Op_is_directory p) \<and> \<not> io (Op_directory_iterator p)) \<and>
   \<not> prefix source destination \<and> \<not> prefix destination source"
    and n: "max_depth (fsys st) < n"
  let ?B = "max_depth (fsys st)"
  have b: "bounded ?B (fsys st)" by (rule bounded_max_depth)
  from n have f: "1 \<le> n" "?B + 1 \<le> n + length source" by simp_all
  from h have d: "node_at (fsys st) source = Some Dir" by simp
  have w: "distinct (walk n (fsys st) source) \<and> set (walk n (fsys st) source) = files_below (fsys st) source"
    by (rule walk_files [OF b d f])
  have "process_directory n io source destination print_info st =
       Some (foldl (\<lambda>s p. organize_file io p destination print_info s) st (walk n (fsys st) source))"
    using h by (intro process_directory_walk [where src = source and B = ?B] b d f same_below_refl) 
      (simp_all)
  with w show "visits_each_file_once n io source destination print_info st"
    unfolding visits_each_file_once_def by blast
qed

lemma max_depth_one_kick: "max_depth (fsys (initial_state tree_one_kick)) = 3"
  by (simp add: max_depth_def initial_state_def tree_one_kick_def)

theorem every_file_visited_once_witness:
  "visits_each_file_once 4 no_io [''src''] [''dst''] False (initial_state tree_one_kick)"
proof -
  have 1: "node_at (fsys (initial_state tree_one_kick)) [''src''] = Some Dir"
    by (simp add: node_at_def initial_state_def tree_one_kick_def)
  have 2: "\<forall>p. prefix [''src''] p \<longrightarrow> \<not> no_io (Op_is_directory p) \<and> \<not> no_io (Op_directory_iterator p)"
    by (simp add: no_io_def)
  have 3: "\<not> prefix [''src''] [''dst'']" "\<not> prefix [''dst''] [''src'']" by simp_all
  have 4: "max_depth (fsys (initial_state tree_one_kick)) < 4" by (simp add: max_depth_one_kick)
  from every_file_visited_once [of "initial_state tree_one_kick" "[''src'']" no_io "[''dst'']" False]
    1 2 3 4
  show ?thesis by blast
qed

text \<open>
  A directory that cannot be listed is left out. When listing \<open>src/a\<close> fails, the
  \<open>catch\<close> of \<open>process_directory\<close> logs the error and the walk goes on without the
  folder: \<open>src/a/Kick.WAV\<close> is below the source root and is never handed to
  \<open>organize_file\<close>.
\<close>

lemma run_unreadable:
  "process_directory 4 io_a_unreadable [''src''] [''dst''] False (initial_state tree_one_kick) =
   Some ((initial_state tree_one_kick)
          \<lparr>cerr := [Error_processing_file_system
                     (Filesystem_error EIO (Op_directory_iterator [''src'', ''a'']))]\<rparr>)"
  by (simp add: eval_nat_numeral fs_eval prog_eval tree_one_kick_def io_a_unreadable_def Let_def)

lemma kick_below_src: "[''src'', ''a'', ''Kick.WAV''] \<in> files_below tree_one_kick [''src'']"
  by (auto simp: files_below_def node_at_def tree_one_kick_def strict_prefix_def prefix_Cons)

lemma unreadable_directory_skipped:
  "[''src'', ''a'', ''Kick.WAV''] \<in> files_below (fsys (initial_state tree_one_kick)) [''src''] \<and>
   process_directory 4 io_a_unreadable [''src''] [''dst''] False (initial_state tree_one_kick) =
     Some ((initial_state tree_one_kick)
            \<lparr>cerr := [Error_processing_file_system
                       (Filesystem_error EIO (Op_directory_iterator [''src'', ''a'']))]\<rparr>) \<and>
   \<not> visits_each_file_once 4 io_a_unreadable [''src''] [''dst''] False (initial_state tree_one_kick)"
proof -
  have "\<not> visits_each_file_once 4 io_a_unreadable [''src''] [''dst''] False (initial_state tree_one_kick)"
  proof
    assume "visits_each_file_once 4 io_a_unreadable [''src''] [''dst''] False (initial_state tree_one_kick)"
    then obtain ps where "process_directory 4 io_a_unreadable [''src''] [''dst''] False (initial_state tree_one_kick) =
          Some (foldl (\<lambda>s p. organize_file io_a_unreadable p [''dst''] False s) (initial_state tree_one_kick) ps)"
      unfolding visits_each_file_once_def by blast
    with run_unreadable have "cerr (foldl (\<lambda>s p. organize_file io_a_unreadable p [''dst''] False s)
        (initial_state tree_one_kick) ps) =
        [Error_processing_file_system (Filesystem_error EIO (Op_directory_iterator [''src'', ''a'']))]"
      by simp
    moreover obtain es where "cerr (foldl (\<lambda>s p. organize_file io_a_unreadable p [''dst''] False s)
        (initial_state tree_one_kick) ps) = cerr (initial_state tree_one_kick) @ map Error_copying_file es"
      using foldl_organize_cerr by blast
    ultimately have "map Error_copying_file es =
        [Error_processing_file_system (Filesystem_error EIO (Op_directory_iterator [''src'', ''a'']))]"
      by (simp add: initial_state_def)
    then show False by (cases es) auto
  qed
  with run_unreadable kick_below_src show ?thesis by (simp add: initial_state_def)
qed

text \<open>
  The claim as written is for every source tree, wherever the destination is. With the
  destination \<open>lib/out\<close> inside the source \<open>lib\<close>, one file is below the source root
  when the walk starts. The walk copies it into \<open>lib/out/Other/Other\<close>, later comes to
  that folder, takes the copy for a source file and copies it again, to
  \<open>lib/out/a_0.wav\<close>, which it never visits. Two files were handed to \<open>organize_file\<close>;
  the tree held one when the walk began and holds three when it ends.
\<close>

lemma run_nested:
  "process_directory 5 no_io [''lib''] [''lib'', ''out''] False (initial_state tree_nested) =
   Some nested_after"
proof -
  have five: "(5::nat) = Suc (Suc (Suc (Suc (Suc 0))))" by simp
  show ?thesis
    unfolding five
    by (simp add: path_eval fs_eval prog_eval tree_nested_def nested_after_def
        Let_def indexed_copy.simps)
qed

lemma first_nested:
  "copied (organize_file no_io [''lib'', ''a.wav''] [''lib'', ''out''] False (initial_state tree_nested)) =
   [([''lib'', ''a.wav''], [''lib'', ''out'', ''Other'', ''Other'', ''a.wav''])]"
  by (simp add: path_eval fs_eval prog_eval tree_nested_def Let_def)

lemma files_below_nested:
  "files_below (fsys (initial_state tree_nested)) [''lib''] = {[''lib'', ''a.wav'']}"
  by (auto simp: files_below_def node_at_def initial_state_def tree_nested_def
      strict_prefix_def prefix_Cons split: if_splits)

lemma distinct_singleton_list: "distinct ps \<Longrightarrow> set ps = {x} \<Longrightarrow> ps = [x]"
proof (cases ps)
  case Nil
  assume "set ps = {x}"
  with Nil show ?thesis by simp
next
  case (Cons y ys)
  assume d: "distinct ps" and s: "set ps = {x}"
  from Cons s have "y = x" "set ys \<subseteq> {x}" by auto
  with Cons d have "ys = []" by (cases ys) auto
  with Cons \<open>y = x\<close> show ?thesis by simp
qed

theorem nested_destination_counterexample:
  "files_below (fsys (initial_state tree_nested)) [''lib''] = {[''lib'', ''a.wav'']} \<and>
   process_directory 5 no_io [''lib''] [''lib'', ''out''] False (initial_state tree_nested) =
     Some nested_after \<and>
   map fst (copied nested_after) =
     [[''lib'', ''a.wav''], [''lib'', ''out'', ''Other'', ''Other'', ''a.wav'']] \<and>
   [''lib'', ''out'', ''a_0.wav''] \<in> files_below (fsys nested_after) [''lib''] \<and>
   \<not> visits_each_file_once 5 no_io [''lib''] [''lib'', ''out''] False (initial_state tree_nested)"
proof -
  have v: "\<not> visits_each_file_once 5 no_io [''lib''] [''lib'', ''out''] False (initial_state tree_nested)"
  proof
    assume "visits_each_file_once 5 no_io [''lib''] [''lib'', ''out''] False (initial_state tree_nested)"
    then obtain ps where ps: "distinct ps"
      "set ps = files_below (fsys (initial_state tree_nested)) [''lib'']"
      and run: "process_directory 5 no_io [''lib''] [''lib'', ''out''] False (initial_state tree_nested) =
        Some (foldl (\<lambda>s p. organize_file no_io p [''lib'', ''out''] False s)
                (initial_state tree_nested) ps)"
      unfolding visits_each_file_once_def by blast
    from ps files_below_nested have "ps = [[''lib'', ''a.wav'']]"
      using distinct_singleton_list by simp
    with run run_nested have "nested_after =
        organize_file no_io [''lib'', ''a.wav''] [''lib'', ''out''] False (initial_state tree_nested)"
      by simp
    then have "copied nested_after =
        copied (organize_file no_io [''lib'', ''a.wav''] [''lib'', ''out''] False (initial_state tree_nested))"
      by simp
    then show False by (simp add: first_nested) (simp add: nested_after_def)
  qed
  have f: "[''lib'', ''out'', ''a_0.wav''] \<in> files_below (fsys nested_after) [''lib'']"
    by (auto simp: files_below_def node_at_def nested_after_def tree_nested_def
        strict_prefix_def prefix_Cons)
  have c: "map fst (copied nested_after) =
     [[''lib'', ''a.wav''], [''lib'', ''out'', ''Other'', ''Other'', ''a.wav'']]"
    by (simp add: nested_after_def)
  from files_below_nested run_nested c f v show ?thesis by blast
qed

section \<open>What a placement that succeeds does\<close>














section \<open>The three branches of collision resolution (C1)\<close>


lemma cand_kick_a: "candidate_path [''src'', ''a'', ''Kick.WAV''] [''dst''] = [''dst'', ''Drums'', ''Kick'', ''Kick.WAV'']"
  by (simp add: path_eval Let_def)

lemma cand_kick_b: "candidate_path [''src'', ''b'', ''Kick.WAV''] [''dst''] = [''dst'', ''Drums'', ''Kick'', ''Kick.WAV'']"
  by (simp add: path_eval Let_def)


lemma audio_kick_b: "is_audio_file [''src'', ''b'', ''Kick.WAV'']"
  by (simp add: path_eval)

lemma lower_kick_a: "to_lower (path_filename [''src'', ''a'', ''Kick.WAV'']) = ''kick.wav''"
  by (simp add: path_eval)

lemma lower_kick_b: "to_lower (path_filename [''src'', ''b'', ''Kick.WAV'']) = ''kick.wav''"
  by (simp add: path_eval)



lemma try_one_kick:
  "organize_try no_io [''src'', ''a'', ''Kick.WAV''] [''dst'']
      (candidate_path [''src'', ''a'', ''Kick.WAV''] [''dst'']) False (initial_state tree_one_kick) =
   (placed_one_kick, None)"
  by (simp add: cand_kick_a path_eval fs_eval prog_eval tree_one_kick_def placed_one_kick_def Let_def)






section \<open>The loop over the indexed names\<close>

lemma indexed_copy_exhausted:
  "(\<forall>j. i \<le> j \<and> j < 999999 \<longrightarrow> fs_exists io (fsys st) (indexed_path s destination j) = Inr True) \<Longrightarrow>
   indexed_copy io s destination pinfo i st = (st, None)"
proof (induction io s destination pinfo i st rule: indexed_copy.induct)
  case (1 io s destination pinfo i st)
  show ?case
  proof (cases "i < 999999")
    case False
    then show ?thesis by (simp add: indexed_copy.simps)
  next
    case True
    let ?p = "destination @ [append_index_to_filename [path_filename s] i]"
    have p: "?p = indexed_path s destination i" by (simp add: indexed_path_def)
    with True "1.prems" have ex: "fs_exists io (fsys st) ?p = Inr True" by simp
    have "\<forall>j. Suc i \<le> j \<and> j < 999999 \<longrightarrow> fs_exists io (fsys st) (indexed_path s destination j) = Inr True"
      using "1.prems" by simp
    from "1.IH" [OF True refl ex refl this] True ex show ?thesis
      by (simp add: indexed_copy.simps)
  qed
qed

lemma indexed_copy_bounded:
  "indexed_copy io s destination pinfo i st = (st', r) \<Longrightarrow>
   copied st' = copied st \<or>
   (\<exists>n < 999999. copied st' = copied st @ [(s, indexed_path s destination n)])"
proof (induction io s destination pinfo i st rule: indexed_copy.induct)
  case (1 io s destination pinfo i st)
  show ?case
  proof (cases "i < 999999")
    case False
    with "1.prems" show ?thesis by (simp add: indexed_copy.simps)
  next
    case True
    let ?p = "destination @ [append_index_to_filename [path_filename s] i]"
    have p: "?p = indexed_path s destination i" by (simp add: indexed_path_def)
    show ?thesis
    proof (cases "fs_exists io (fsys st) ?p")
      case (Inl e)
      with True "1.prems" show ?thesis by (simp add: indexed_copy.simps)
    next
      case (Inr b)
      show ?thesis
      proof (cases b)
        case True
        then have bt: "b = True" by simp
        from True Inr \<open>i < 999999\<close> "1.prems"
        have "indexed_copy io s destination pinfo (Suc i) st = (st', r)"
          by (simp add: indexed_copy.simps)
        from "1.IH" [OF \<open>i < 999999\<close> refl Inr bt this] show ?thesis .
      next
        case False
        show ?thesis
        proof (cases "copy_and_report io s ?p pinfo st")
          case (Inl e)
          with False Inr True "1.prems" show ?thesis by (simp add: indexed_copy.simps)
        next
          case cr: (Inr s2)
          with False Inr True "1.prems" have "s2 = st'" by (simp add: indexed_copy.simps)
          with cr p have "copy_and_report io s (indexed_path s destination i) pinfo st = Inr st'"
            by simp
          from copy_and_report_fields [OF this] True show ?thesis by blast
        qed
      qed
    qed
  qed
qed

lemma organize_file_exhausted:
  assumes audio: "is_audio_file source"
    and mk: "create_parent_directories io (fsys st) (candidate_path source destination) = (t, None)"
    and ex: "fs_exists io t (candidate_path source destination) = Inr True"
    and reg: "to_lower (path_filename source) \<in> processed_files st"
    and full: "\<forall>j < 999999. fs_exists io t (indexed_path source destination j) = Inr True"
  shows "organize_file io source destination pinfo st =
     print_request source (candidate_path source destination) pinfo (st\<lparr>fsys := t\<rparr>)"
proof -
  let ?d = "candidate_path source destination"
  let ?s = "print_request source ?d pinfo (st\<lparr>fsys := t\<rparr>)"
  have fs: "fsys ?s = t" and pf: "processed_files ?s = processed_files st"
    by (simp_all add: print_request_def)
  have fap: "file_already_processed ?d ?s"
    using reg by (simp add: file_already_processed_def pf)
  have "indexed_copy io source destination pinfo 0 ?s = (?s, None)"
    by (rule indexed_copy_exhausted) (use full in \<open>simp add: fs\<close>)
  then have ci: "copy_indexed io source destination pinfo ?s = (mark_processed source ?s, None)"
    by (simp add: copy_indexed_def)
  have "insert (to_lower (path_filename source)) (processed_files ?s) = processed_files ?s"
    using reg pf by auto
  then have "mark_processed source ?s = ?s" by (simp add: mark_processed_def)
  with ci ex fap have "place_file io source destination ?d pinfo ?s = (?s, None)"
    by (simp add: place_file_def fs)
  with mk have "organize_try io source destination ?d pinfo st = (?s, None)"
    by (simp add: organize_try_def)
  with audio show ?thesis by (simp add: organize_file_def Let_def)
qed

section \<open>A search that finds no free name (C4)\<close>

text \<open>
  C4, as amended. The loop tries the indices 0 to 999998 and no other: a copy it makes
  goes to one of these names. When the candidate exists, the name is in the registry and
  every one of the indexed names exists, \<open>organize_file\<close> returns the state it was given,
  apart from the parent directories it made and the request line it printed: the file
  is copied nowhere, nothing is written to \<open>cerr\<close>, and the registry is as before (line
  196 inserts the name that is already there).
\<close>

theorem exhausted_search:
  "(indexed_copy io source destination print_info i st = (st', r) \<longrightarrow>
      copied st' = copied st \<or>
      (\<exists>n < 999999. copied st' = copied st @ [(source, indexed_path source destination n)])) \<and>
   (is_audio_file source \<and>
    create_parent_directories io (fsys st) (candidate_path source destination) = (t, None) \<and>
    fs_exists io t (candidate_path source destination) = Inr True \<and>
    to_lower (path_filename source) \<in> processed_files st \<and>
    (\<forall>j < 999999. fs_exists io t (indexed_path source destination j) = Inr True)
    \<longrightarrow> organize_file io source destination print_info st =
          print_request source (candidate_path source destination) print_info (st\<lparr>fsys := t\<rparr>) \<and>
        copied (organize_file io source destination print_info st) = copied st \<and>
        cerr (organize_file io source destination print_info st) = cerr st \<and>
        processed_files (organize_file io source destination print_info st) = processed_files st)"
proof -
  have "organize_file io source destination print_info st =
          print_request source (candidate_path source destination) print_info (st\<lparr>fsys := t\<rparr>) \<and>
        copied (organize_file io source destination print_info st) = copied st \<and>
        cerr (organize_file io source destination print_info st) = cerr st \<and>
        processed_files (organize_file io source destination print_info st) = processed_files st"
    if "is_audio_file source"
      "create_parent_directories io (fsys st) (candidate_path source destination) = (t, None)"
      "fs_exists io t (candidate_path source destination) = Inr True"
      "to_lower (path_filename source) \<in> processed_files st"
      "\<forall>j < 999999. fs_exists io t (indexed_path source destination j) = Inr True"
    using organize_file_exhausted [OF that] by (simp add: print_request_def)
  with indexed_copy_bounded [of io source destination print_info i st st' r] show ?thesis by blast
qed

lemma map_of_tabulate: "j \<in> set js \<Longrightarrow> map_of (map (\<lambda>j. (f j, v)) js) (f j) = Some v"
  by (induction js) auto

lemma taken_names_all:
  "j < 999999 \<Longrightarrow>
   map_of taken_names (indexed_path [''src'', ''b'', ''Kick.WAV''] [''dst''] j) = Some (File ''x'')"
  unfolding taken_names_def by (rule map_of_tabulate) simp

lemma indexed_path_nonempty: "indexed_path s d j \<noteq> []"
  by (simp add: indexed_path_def)

lemma exhausted_all_exist:
  "\<forall>j < 999999. fs_exists no_io (fsys state_exhausted)
      (indexed_path [''src'', ''b'', ''Kick.WAV''] [''dst''] j) = Inr True"
proof (intro allI impI)
  fix j :: nat assume "j < 999999"
  from taken_names_all [OF this]
  have "map_of (fsys state_second_kick @ taken_names)
      (indexed_path [''src'', ''b'', ''Kick.WAV''] [''dst''] j) \<noteq> None"
    by (simp add: map_add_def split: option.splits)
  then show "fs_exists no_io (fsys state_exhausted)
      (indexed_path [''src'', ''b'', ''Kick.WAV''] [''dst''] j) = Inr True"
    by (simp add: fs_exists_def no_io_def node_at_def state_exhausted_def indexed_path_nonempty)
qed

lemma exhausted_mk:
  "create_parent_directories no_io (fsys state_exhausted)
      (candidate_path [''src'', ''b'', ''Kick.WAV''] [''dst'']) = (fsys state_exhausted, None)"
  by (simp add: cand_kick_b fs_eval parent_path_def state_exhausted_def state_second_kick_def
      map_add_def)

lemma exhausted_candidate:
  "fs_exists no_io (fsys state_exhausted) (candidate_path [''src'', ''b'', ''Kick.WAV''] [''dst'']) = Inr True"
  by (simp add: cand_kick_b fs_eval state_exhausted_def state_second_kick_def map_add_def)

lemma exhausted_registry:
  "to_lower (path_filename [''src'', ''b'', ''Kick.WAV'']) \<in> processed_files state_exhausted"
  by (simp add: lower_kick_b state_exhausted_def state_second_kick_def)

theorem exhausted_search_witness:
  "organize_file no_io [''src'', ''b'', ''Kick.WAV''] [''dst''] False state_exhausted = state_exhausted \<and>
   copied (organize_file no_io [''src'', ''b'', ''Kick.WAV''] [''dst''] False state_exhausted) =
     copied state_exhausted"
  using exhausted_search [of no_io "[''src'', ''b'', ''Kick.WAV'']" "[''dst'']" False _ state_exhausted
      _ _ "fsys state_exhausted"]
    audio_kick_b exhausted_mk exhausted_candidate exhausted_registry exhausted_all_exist
  by (simp add: print_request_def)

text \<open>
  The claim as written says an error is reported for the file. With all 999999 names
  taken the loop ends without a copy, and the call returns the state unchanged, with
  \<open>cerr\<close> still empty.
\<close>

theorem exhausted_counterexample:
  "indexed_copy no_io [''src'', ''b'', ''Kick.WAV''] [''dst''] False 0 state_exhausted =
     (state_exhausted, None) \<and>
   organize_file no_io [''src'', ''b'', ''Kick.WAV''] [''dst''] False state_exhausted = state_exhausted \<and>
   cerr state_exhausted = []"
proof -
  have "indexed_copy no_io [''src'', ''b'', ''Kick.WAV''] [''dst''] False 0 state_exhausted =
     (state_exhausted, None)"
    by (rule indexed_copy_exhausted) (use exhausted_all_exist in simp)
  moreover have "organize_file no_io [''src'', ''b'', ''Kick.WAV''] [''dst''] False state_exhausted =
      state_exhausted"
    using organize_file_exhausted [OF audio_kick_b exhausted_mk exhausted_candidate
        exhausted_registry exhausted_all_exist, of False]
    by (simp add: print_request_def)
  moreover have "cerr state_exhausted = []"
    by (simp add: state_exhausted_def state_second_kick_def)
  ultimately show ?thesis by simp
qed

section \<open>File names and registry entries\<close>

lemma filename_extension_suffix:
  "take (length f - length (filename_extension f)) f @ filename_extension f = f"
  by (simp add: filename_extension_def Let_def)

lemma stem_extension: "path_stem p @ path_extension p = path_filename p"
  unfolding path_stem_def path_extension_def by (rule filename_extension_suffix)

lemma to_lower_append: "to_lower (a @ b) = to_lower a @ to_lower b"
  by (simp add: to_lower_def)

lemma names_differ_by_extension:
  assumes "to_lower (path_stem p) = to_lower (path_stem q)"
    and "to_lower (path_extension p) \<noteq> to_lower (path_extension q)"
  shows "to_lower (path_filename p) \<noteq> to_lower (path_filename q)"
proof
  assume "to_lower (path_filename p) = to_lower (path_filename q)"
  then have "to_lower (path_stem p) @ to_lower (path_extension p) =
      to_lower (path_stem q) @ to_lower (path_extension q)"
    by (simp add: stem_extension to_lower_append [symmetric])
  with assms show False by simp
qed

lemma organize_file_registry_step:
  "processed_files (organize_file io source destination pinfo st) = processed_files st \<or>
   processed_files (organize_file io source destination pinfo st) =
     insert (to_lower (path_filename source)) (processed_files st)"
proof (cases "is_audio_file source")
  case False
  then show ?thesis by (simp add: organize_file_def)
next
  case True
  obtain st' r where t: "organize_try io source destination (candidate_path source destination) pinfo st = (st', r)"
    by (cases "organize_try io source destination (candidate_path source destination) pinfo st")
  from organize_try_fields [OF t path_filename_candidate] True t show ?thesis
    by (cases r) (auto simp: organize_file_def Let_def)
qed

section \<open>The key of the registry (C10)\<close>

text \<open>
  C10, as amended. A path is looked up in the registry by its whole lower-cased file
  name. Once a file is placed, every file whose name differs from its name in case only
  is found in the registry; when such a file is placed and its own candidate exists,
  the loop over the indexed names is what runs (not the removal and copy). Two names
  with the same lower-cased stem and different lower-cased extensions are different
  keys, and placing a file with one of them leaves the lookup of the other as it was.
\<close>

theorem registry_key:
  "file_already_processed p st = (to_lower (path_filename p) \<in> processed_files st) \<and>
   (organize_try io s1 destination (candidate_path s1 destination) print_info st = (st', None) \<and>
    to_lower (path_filename s2) = to_lower (path_filename s1)
      \<longrightarrow> file_already_processed (candidate_path s2 destination) st') \<and>
   (file_already_processed (candidate_path s2 destination) st \<and>
    fs_exists io (fsys st) (candidate_path s2 destination) = Inr True
      \<longrightarrow> place_file io s2 destination (candidate_path s2 destination) print_info st =
            copy_indexed io s2 destination print_info st) \<and>
   (to_lower (path_stem s1) = to_lower (path_stem s2) \<and>
    to_lower (path_extension s1) \<noteq> to_lower (path_extension s2)
      \<longrightarrow> to_lower (path_filename s1) \<noteq> to_lower (path_filename s2)) \<and>
   (to_lower (path_filename s1) \<noteq> to_lower (path_filename s2)
      \<longrightarrow> file_already_processed (candidate_path s2 destination)
              (organize_file io s1 destination print_info st) =
            file_already_processed (candidate_path s2 destination) st)"
proof -
  have 1: "file_already_processed p st = (to_lower (path_filename p) \<in> processed_files st)"
    by (simp add: file_already_processed_def)
  have 2: "file_already_processed (candidate_path s2 destination) st'"
    if "organize_try io s1 destination (candidate_path s1 destination) print_info st = (st', None)"
      "to_lower (path_filename s2) = to_lower (path_filename s1)"
    using organize_try_fields [OF that(1) path_filename_candidate] that(2)
    by (simp add: file_already_processed_def)
  have 3: "place_file io s2 destination (candidate_path s2 destination) print_info st =
            copy_indexed io s2 destination print_info st"
    if "file_already_processed (candidate_path s2 destination) st"
      "fs_exists io (fsys st) (candidate_path s2 destination) = Inr True"
    using that by (simp add: place_file_def)
  have 4: "to_lower (path_filename s1) \<noteq> to_lower (path_filename s2)"
    if "to_lower (path_stem s1) = to_lower (path_stem s2)"
      "to_lower (path_extension s1) \<noteq> to_lower (path_extension s2)"
    using that by (rule names_differ_by_extension)
  have 5: "file_already_processed (candidate_path s2 destination)
              (organize_file io s1 destination print_info st) =
            file_already_processed (candidate_path s2 destination) st"
    if "to_lower (path_filename s1) \<noteq> to_lower (path_filename s2)"
    using organize_file_registry_step [of io s1 destination print_info st] that
    by (auto simp: file_already_processed_def)
  from 1 2 3 4 5 show ?thesis by blast
qed

lemma lower_kick_small: "to_lower (path_filename [''src'', ''b'', ''kick.wav'']) = ''kick.wav''"
  by (simp add: path_eval)

lemma stem_kick_a: "to_lower (path_stem [''src'', ''a'', ''Kick.WAV'']) = ''kick''"
  by (simp add: path_eval)

lemma stem_kick_mp3: "to_lower (path_stem [''src'', ''c'', ''kick.mp3'']) = ''kick''"
  by (simp add: path_eval)

lemma ext_kick_a: "to_lower (path_extension [''src'', ''a'', ''Kick.WAV'']) = ''.wav''"
  by (simp add: path_eval)

lemma ext_kick_mp3: "to_lower (path_extension [''src'', ''c'', ''kick.mp3'']) = ''.mp3''"
  by (simp add: path_eval)

lemma second_kick_exists:
  "fs_exists no_io (fsys state_second_kick) (candidate_path [''src'', ''b'', ''Kick.WAV''] [''dst'']) = Inr True"
  by (simp add: cand_kick_b fs_eval state_second_kick_def)

theorem registry_key_witness:
  "file_already_processed (candidate_path [''src'', ''b'', ''kick.wav''] [''dst'']) placed_one_kick \<and>
   to_lower (path_filename [''src'', ''a'', ''Kick.WAV'']) \<noteq>
     to_lower (path_filename [''src'', ''c'', ''kick.mp3'']) \<and>
   \<not> file_already_processed (candidate_path [''src'', ''c'', ''kick.mp3''] [''dst''])
       (organize_file no_io [''src'', ''a'', ''Kick.WAV''] [''dst''] False (initial_state tree_one_kick)) \<and>
   place_file no_io [''src'', ''b'', ''Kick.WAV''] [''dst'']
       (candidate_path [''src'', ''b'', ''Kick.WAV''] [''dst'']) False state_second_kick =
     copy_indexed no_io [''src'', ''b'', ''Kick.WAV''] [''dst''] False state_second_kick"
proof -
  have same: "to_lower (path_filename [''src'', ''b'', ''kick.wav'']) =
      to_lower (path_filename [''src'', ''a'', ''Kick.WAV''])"
    by (simp add: lower_kick_small lower_kick_a)
  have 1: "file_already_processed (candidate_path [''src'', ''b'', ''kick.wav''] [''dst'']) placed_one_kick"
    using registry_key [where io = no_io and ?s1.0 = "[''src'', ''a'', ''Kick.WAV'']"
        and destination = "[''dst'']" and print_info = False and st = "initial_state tree_one_kick"
        and st' = placed_one_kick and ?s2.0 = "[''src'', ''b'', ''kick.wav'']"]
      try_one_kick same
    by blast
  have stems: "to_lower (path_stem [''src'', ''a'', ''Kick.WAV'']) =
      to_lower (path_stem [''src'', ''c'', ''kick.mp3''])"
    by (simp add: stem_kick_a stem_kick_mp3)
  have exts: "to_lower (path_extension [''src'', ''a'', ''Kick.WAV'']) \<noteq>
      to_lower (path_extension [''src'', ''c'', ''kick.mp3''])"
    by (simp add: ext_kick_a ext_kick_mp3)
  note k = registry_key [where io = no_io and ?s1.0 = "[''src'', ''a'', ''Kick.WAV'']"
        and destination = "[''dst'']" and print_info = False and st = "initial_state tree_one_kick"
        and ?s2.0 = "[''src'', ''c'', ''kick.mp3'']"
        and p = "candidate_path [''src'', ''c'', ''kick.mp3''] [''dst'']"]
  from k stems exts have 2: "to_lower (path_filename [''src'', ''a'', ''Kick.WAV'']) \<noteq>
     to_lower (path_filename [''src'', ''c'', ''kick.mp3''])"
    by blast
  have "\<not> file_already_processed (candidate_path [''src'', ''c'', ''kick.mp3''] [''dst''])
      (initial_state tree_one_kick)"
    by (simp add: file_already_processed_def initial_state_def)
  with k 2 have 3: "\<not> file_already_processed (candidate_path [''src'', ''c'', ''kick.mp3''] [''dst''])
       (organize_file no_io [''src'', ''a'', ''Kick.WAV''] [''dst''] False (initial_state tree_one_kick))"
    by blast
  have fap: "file_already_processed (candidate_path [''src'', ''b'', ''Kick.WAV''] [''dst'']) state_second_kick"
    by (simp add: file_already_processed_def lower_kick_b state_second_kick_def)
  have 4: "place_file no_io [''src'', ''b'', ''Kick.WAV''] [''dst'']
       (candidate_path [''src'', ''b'', ''Kick.WAV''] [''dst'']) False state_second_kick =
     copy_indexed no_io [''src'', ''b'', ''Kick.WAV''] [''dst''] False state_second_kick"
    using registry_key [where io = no_io and destination = "[''dst'']" and print_info = False
        and st = state_second_kick and ?s2.0 = "[''src'', ''b'', ''Kick.WAV'']"]
      fap second_kick_exists
    by blast
  from 1 2 3 4 show ?thesis by blast
qed

text \<open>
  The claim as written has the second of two files that differ in case only always take
  the loop over the indexed names. On this file system, which tells \<open>Kick.WAV\<close> from
  \<open>kick.wav\<close>, the candidate of the second does not exist when it is placed: it is
  copied to its candidate, and no indexed name is made.
\<close>

lemma run_two_cases:
  "process_directory 3 no_io [''src''] [''dst''] False (initial_state tree_two_cases) =
   Some placed_two_cases"
  by (simp add: numeral_3_eq_3 path_eval fs_eval prog_eval tree_two_cases_def
      placed_two_cases_def Let_def)

lemma cand_kick_small:
  "candidate_path [''src'', ''b'', ''kick.wav''] [''dst''] = [''dst'', ''Drums'', ''Kick'', ''kick.wav'']"
  by (simp add: path_eval Let_def)

lemma indexed_kick_small:
  "indexed_path [''src'', ''b'', ''kick.wav''] [''dst''] 0 = [''dst'', ''kick_0.wav'']"
  by (simp add: indexed_path_def path_eval)

theorem case_sensitive_counterexample:
  "to_lower (path_filename [''src'', ''a'', ''Kick.WAV'']) =
     to_lower (path_filename [''src'', ''b'', ''kick.wav'']) \<and>
   process_directory 3 no_io [''src''] [''dst''] False (initial_state tree_two_cases) =
     Some placed_two_cases \<and>
   copied placed_two_cases =
     [([''src'', ''a'', ''Kick.WAV''], candidate_path [''src'', ''a'', ''Kick.WAV''] [''dst'']),
      ([''src'', ''b'', ''kick.wav''], candidate_path [''src'', ''b'', ''kick.wav''] [''dst''])] \<and>
   node_at (fsys placed_two_cases) (indexed_path [''src'', ''b'', ''kick.wav''] [''dst''] 0) = None"
  by (simp add: run_two_cases lower_kick_a lower_kick_small cand_kick_a cand_kick_small
      indexed_kick_small)
    (simp add: placed_two_cases_def tree_two_cases_def node_at_def)

end
